theory Spec2Isabelle
  imports Complex_Main
begin

section \<open>A pseudo-spectral solver for the 2D vorticity equation\<close>

text \<open>
  This theory embeds the class \<^verbatim>\<open>Fluid\<close> of \<^verbatim>\<open>src/fluid.py\<close>: the constructor,
  \<^verbatim>\<open>init_solver\<close>, \<^verbatim>\<open>init_field\<close>, the transforms, the Poisson inversion, the
  convection and diffusion terms, the spectral filter, the CFL estimate and the
  Runge-Kutta step.

  Conventions of the embedding.
  \<^item> A Python \<^verbatim>\<open>float\<close> and a numpy \<^verbatim>\<open>float64\<close> are a \<open>real\<close>, a \<^verbatim>\<open>complex128\<close> is a
    \<open>complex\<close>: the arithmetic is exact. Rounding, overflow, \<^verbatim>\<open>inf\<close> and \<^verbatim>\<open>nan\<close> of
    IEEE-754 are not modelled.
  \<^item> A two-dimensional numpy array is the list of its rows, a one-dimensional array a
    list. numpy arrays are rectangular; an array without rows keeps no column count here.
  \<^item> A method of the class takes the object as a record and returns the updated record,
    or the exception it raises: the result type is \<open>exception + fluid\<close>.
  \<^item> An attribute that \<^verbatim>\<open>__init__\<close> does not create is an \<open>option\<close> field; reading
    it while it is \<open>None\<close> is Python's \<^verbatim>\<open>AttributeError\<close>.
  \<^item> The methods \<^verbatim>\<open>_get_psih\<close>, \<^verbatim>\<open>_add_convection\<close>, \<^verbatim>\<open>_add_diffusion\<close>,
    \<^verbatim>\<open>_cfl_limit\<close>, \<^verbatim>\<open>_init_filter\<close> and \<^verbatim>\<open>_spec_variance\<close> lose their leading
    underscore, the field \<^verbatim>\<open>Re\<close> is \<open>Re_number\<close> (\<open>Re\<close> is the real part of a
    complex number).
\<close>

subsection \<open>Python values and exceptions\<close>

text \<open>
  The exceptions the modelled statements can raise. \<open>UnsupportedFieldKind\<close> is the error
  kind the specification names for an unknown initial condition; no statement of the
  source raises it.
\<close>

datatype exception =
  AttributeError | IndexError | TypeError | ValueError | ZeroDivisionError
  | UnsupportedFieldKind

definition andThen :: "exception + 'a \<Rightarrow> ('a \<Rightarrow> exception + 'b) \<Rightarrow> exception + 'b" where
  "andThen m f = (case m of Inl e \<Rightarrow> Inl e | Inr a \<Rightarrow> f a)"

definition attr :: "'a option \<Rightarrow> exception + 'a" where
  "attr a = (case a of None \<Rightarrow> Inl AttributeError | Some b \<Rightarrow> Inr b)"

text \<open>Division of two Python floats: a zero divisor raises.\<close>

definition py_div :: "real \<Rightarrow> real \<Rightarrow> exception + real" where
  "py_div a b = (if b = 0 then Inl ZeroDivisionError else Inr (a / b))"

text \<open>\<^verbatim>\<open>int(r)\<close> of a float truncates towards zero.\<close>

definition py_int :: "real \<Rightarrow> int" where
  "py_int r = (if 0 \<le> r then \<lfloor>r\<rfloor> else \<lceil>r\<rceil>)"

text \<open>A bound of a slice, against an axis of length \<open>n\<close>: a negative bound counts from
  the end, and every bound is clipped to the axis.\<close>

definition slice_index :: "nat \<Rightarrow> int \<Rightarrow> nat" where
  "slice_index n i = (if i < 0 then nat (max 0 (int n + i)) else min n (nat i))"

text \<open>
  \<^verbatim>\<open>fmt % arg\<close> for a string argument, for formats whose conversions are \<^verbatim>\<open>%s\<close> and
  \<^verbatim>\<open>%%\<close>. The flag says whether the argument has been consumed: a second \<^verbatim>\<open>%s\<close>, or
  no conversion at all, is Python's \<^verbatim>\<open>TypeError\<close> (not enough arguments, not all
  arguments converted); any other conversion character is refused here.
\<close>

fun py_format :: "string \<Rightarrow> string \<Rightarrow> bool \<Rightarrow> exception + string" where
  "py_format [] a used = (if used then Inr [] else Inl TypeError)"
| "py_format [c] a used =
     (if c = CHR ''%'' then Inl ValueError
      else if used then Inr [c] else Inl TypeError)"
| "py_format (c # d # fmt) a used =
     (if c = CHR ''%'' then
        (if d = CHR ''%'' then andThen (py_format fmt a used) (\<lambda>r. Inr (CHR ''%'' # r))
         else if d = CHR ''s'' then
           (if used then Inl TypeError
            else andThen (py_format fmt a True) (\<lambda>r. Inr (a @ r)))
         else Inl ValueError)
      else andThen (py_format (d # fmt) a used) (\<lambda>r. Inr (c # r)))"

subsection \<open>numpy arrays\<close>

definition shape :: "'a list list \<Rightarrow> nat \<times> nat" where
  "shape a = (length a, case a of [] \<Rightarrow> 0 | r # _ \<Rightarrow> length r)"

text \<open>Two arrays have the same shape when their rows have the same lengths, one by one
  (for rectangular arrays with a row this is equality of \<open>shape\<close>).\<close>

definition same_shape :: "'a list list \<Rightarrow> 'b list list \<Rightarrow> bool" where
  "same_shape a b = (map length a = map length b)"

definition zeros :: "nat \<Rightarrow> nat \<Rightarrow> 'a::zero list list" where
  "zeros r c = replicate r (replicate c 0)"

text \<open>\<^verbatim>\<open>np.zeros((r, c))\<close> and \<^verbatim>\<open>np.ones(n)\<close> for Python integers: a negative dimension
  is a \<^verbatim>\<open>ValueError\<close>.\<close>

definition np_zeros :: "int \<Rightarrow> int \<Rightarrow> exception + 'a::zero list list" where
  "np_zeros r c = (if r < 0 \<or> c < 0 then Inl ValueError else Inr (zeros (nat r) (nat c)))"

definition np_ones :: "int \<Rightarrow> exception + bool list" where
  "np_ones n = (if n < 0 then Inl ValueError else Inr (replicate (nat n) True))"

text \<open>
  Broadcasting. Two axes of lengths \<open>m\<close> and \<open>n\<close> are compatible when they are equal or one
  of them is 1; an axis of length 1 is repeated. A one-dimensional array \<open>xs\<close> meets a
  two-dimensional one as the single row \<open>[xs]\<close>, and \<^verbatim>\<open>ys[:, np.newaxis]\<close> is the
  column \<open>map (\<lambda>y. [y]) ys\<close>.
\<close>

definition bdim :: "nat \<Rightarrow> nat \<Rightarrow> nat option" where
  "bdim m n = (if m = n then Some m else if m = 1 then Some n else if n = 1 then Some m
     else None)"

definition stretch :: "nat \<Rightarrow> 'a list \<Rightarrow> 'a list" where
  "stretch n xs = (if length xs = n then xs else replicate n (hd xs))"

definition broadcast_to :: "nat \<times> nat \<Rightarrow> 'a list list \<Rightarrow> 'a list list" where
  "broadcast_to sh a = map (stretch (snd sh)) (stretch (fst sh) a)"

definition can_broadcast :: "nat \<times> nat \<Rightarrow> nat \<times> nat \<Rightarrow> bool" where
  "can_broadcast src dst =
     ((fst src = fst dst \<or> fst src = 1) \<and> (snd src = snd dst \<or> snd src = 1))"

text \<open>An elementwise binary operation of two arrays (\<^verbatim>\<open>a + b\<close>, \<^verbatim>\<open>a * b\<close>, ...).\<close>

definition elementwise ::
  "('a \<Rightarrow> 'b \<Rightarrow> 'c) \<Rightarrow> 'a list list \<Rightarrow> 'b list list \<Rightarrow> exception + 'c list list" where
  "elementwise f a b =
     (case (bdim (fst (shape a)) (fst (shape b)), bdim (snd (shape a)) (snd (shape b))) of
        (Some r, Some c) \<Rightarrow>
          Inr (map2 (map2 f) (broadcast_to (r, c) a) (broadcast_to (r, c) b))
      | _ \<Rightarrow> Inl ValueError)"

text \<open>An in-place operation (\<^verbatim>\<open>a -= b\<close>, \<^verbatim>\<open>a += b\<close>): the result must have the shape
  of \<open>a\<close>.\<close>

definition inplace ::
  "('a \<Rightarrow> 'b \<Rightarrow> 'a) \<Rightarrow> 'a list list \<Rightarrow> 'b list list \<Rightarrow> exception + 'a list list" where
  "inplace f a b =
     (if can_broadcast (shape b) (shape a) then elementwise f a b else Inl ValueError)"

text \<open>\<^verbatim>\<open>a[:, :] = b\<close>: the value is broadcast to the shape of \<open>a\<close>.\<close>

definition assign_all :: "'a list list \<Rightarrow> 'a list list \<Rightarrow> exception + 'a list list" where
  "assign_all a b =
     (if can_broadcast (shape b) (shape a) then Inr (broadcast_to (shape a) b)
      else Inl ValueError)"

text \<open>
  Indexing with a boolean array of the same number of dimensions. The mask must have the
  shape of the array (\<^verbatim>\<open>IndexError\<close> otherwise); \<^verbatim>\<open>a[m]\<close> is the list of the selected
  entries in row-major order, and \<^verbatim>\<open>a[m] = vs\<close> writes the values \<open>vs\<close> to the selected
  places in that order (as many values as places, or one value for all).
\<close>

definition select1 :: "bool list \<Rightarrow> 'a list \<Rightarrow> 'a list" where
  "select1 m xs = map snd (filter fst (zip m xs))"

definition mask_get :: "bool list list \<Rightarrow> 'a list list \<Rightarrow> exception + 'a list" where
  "mask_get m a =
     (if same_shape m a then Inr (concat (map2 select1 m a)) else Inl IndexError)"

fun put1 :: "bool list \<Rightarrow> 'a list \<Rightarrow> 'a list \<Rightarrow> 'a list" where
  "put1 (True # m) (b # bs) (c # cs) = c # put1 m bs cs"
| "put1 (False # m) (b # bs) cs = b # put1 m bs cs"
| "put1 m bs cs = bs"

fun put_rows :: "bool list list \<Rightarrow> 'a list list \<Rightarrow> 'a list \<Rightarrow> 'a list list" where
  "put_rows (m # ms) (r # rs) cs =
     put1 m r cs # put_rows ms rs (drop (length (filter id m)) cs)"
| "put_rows ms rs cs = rs"

definition count_true :: "bool list list \<Rightarrow> nat" where
  "count_true m = length (filter id (concat m))"

definition mask_set ::
  "bool list list \<Rightarrow> 'a list list \<Rightarrow> 'a list \<Rightarrow> exception + 'a list list" where
  "mask_set m a cs =
     (if \<not> same_shape m a then Inl IndexError
      else if length cs = count_true m then Inr (put_rows m a cs)
      else if length cs = 1 then Inr (put_rows m a (replicate (count_true m) (hd cs)))
      else Inl ValueError)"

text \<open>\<^verbatim>\<open>a[m] = c\<close> for a scalar \<open>c\<close>.\<close>

definition mask_fill :: "bool list list \<Rightarrow> 'a list list \<Rightarrow> 'a \<Rightarrow> exception + 'a list list" where
  "mask_fill m a c =
     (if same_shape m a then Inr (map2 (map2 (\<lambda>b e. if b then c else e)) m a)
      else Inl IndexError)"

text \<open>
  \<^verbatim>\<open>a[m, :n]\<close> for a boolean array \<open>m\<close> over the rows: the rows \<open>m\<close> selects, cut to their
  first \<open>n\<close> columns. \<open>m\<close> must be as long as the first axis.
\<close>

definition get_rows_cols ::
  "bool list \<Rightarrow> nat \<Rightarrow> 'a list list \<Rightarrow> exception + 'a list list" where
  "get_rows_cols m n a =
     (if length m = length a then Inr (map (take n) (select1 m a)) else Inl IndexError)"

text \<open>\<^verbatim>\<open>a[m, :n] = b\<close>: \<open>b\<close> is broadcast to the shape of the selection and written
  over the head of every selected row.\<close>

fun put_heads :: "bool list \<Rightarrow> 'a list list \<Rightarrow> 'a list list \<Rightarrow> 'a list list" where
  "put_heads (True # m) (r # rs) (b # bs) = (b @ drop (length b) r) # put_heads m rs bs"
| "put_heads (False # m) (r # rs) bs = r # put_heads m rs bs"
| "put_heads m rs bs = rs"

definition set_rows_cols ::
  "bool list \<Rightarrow> nat \<Rightarrow> 'a list list \<Rightarrow> 'a list list \<Rightarrow> exception + 'a list list" where
  "set_rows_cols m n a b =
     (if length m \<noteq> length a then Inl IndexError
      else let sel = (length (filter id m), min n (snd (shape a))) in
        if can_broadcast (shape b) sel then Inr (put_heads m a (broadcast_to sel b))
        else Inl ValueError)"

text \<open>\<^verbatim>\<open>np.max\<close> of an array: an array without entries is a \<^verbatim>\<open>ValueError\<close>.\<close>

definition np_max :: "real list \<Rightarrow> exception + real" where
  "np_max xs = (if xs = [] then Inl ValueError else Inr (Max (set xs)))"

text \<open>\<^verbatim>\<open>np.linspace(0, 2*np.pi, n, endpoint=False, retstep=True)\<close>: the samples and the
  step. \<^verbatim>\<open>np.fft.fftfreq(n) * n\<close>: the wavenumbers \<open>0, 1, ..., (n-1) div 2\<close> followed by
  \<open>-(n div 2), ..., -1\<close>.\<close>

definition linspace_2pi :: "nat \<Rightarrow> real list \<times> real" where
  "linspace_2pi n = (map (\<lambda>i. real i * (2 * pi / real n)) [0..<n], 2 * pi / real n)"

definition wavenumbers :: "nat \<Rightarrow> real list" where
  "wavenumbers n =
     map real [0..<(n - 1) div 2 + 1] @ map real_of_int [- int (n div 2)..-1]"

subsection \<open>Discrete Fourier transforms\<close>

text \<open>
  The transforms of \<^verbatim>\<open>numpy.fft\<close> by their defining sums. \<open>fft\<close> and \<open>ifft\<close> are the
  complex transform of a list and its inverse; \<open>rfft\<close> keeps the coefficients
  \<open>0, ..., n div 2\<close> of a real list of length \<open>n\<close>; \<open>irfft\<close> takes \<open>m\<close> coefficients to
  \<open>2 * (m - 1)\<close> real samples, reading the missing coefficients as complex conjugates and
  only the real parts of the first and the last one.
\<close>

definition fft :: "complex list \<Rightarrow> complex list" where
  "fft a = map (\<lambda>k. \<Sum>m<length a.
      a ! m * cis (- (2 * pi * real m * real k / real (length a)))) [0..<length a]"

definition ifft :: "complex list \<Rightarrow> complex list" where
  "ifft a = map (\<lambda>m. (\<Sum>k<length a.
      a ! k * cis (2 * pi * real m * real k / real (length a))) / of_nat (length a))
      [0..<length a]"

definition rfft :: "real list \<Rightarrow> complex list" where
  "rfft a = map (\<lambda>k. \<Sum>m<length a.
      of_real (a ! m) * cis (- (2 * pi * real m * real k / real (length a))))
      [0..<length a div 2 + 1]"

definition irfft :: "complex list \<Rightarrow> real list" where
  "irfft a = (let n = 2 * (length a - 1) in
     map (\<lambda>j. (Re (a ! 0)
               + (\<Sum>k = 1..<n div 2. 2 * Re (a ! k * cis (2 * pi * real j * real k / real n)))
               + Re (a ! (n div 2)) * (- 1) ^ j) / real n) [0..<n])"

text \<open>The columns of an array, and a transform along the first axis.\<close>

definition columns :: "'a list list \<Rightarrow> 'a list list" where
  "columns a = map (\<lambda>j. map (\<lambda>r. r ! j) a) [0..<snd (shape a)]"

definition along_axis0 :: "('a list \<Rightarrow> 'b list) \<Rightarrow> 'a list list \<Rightarrow> 'b list list" where
  "along_axis0 f a = columns (map f (columns a))"

text \<open>
  \<^verbatim>\<open>np.fft.rfft2(a, axes=(-2,-1))\<close>: \<open>rfft\<close> along the last axis, then \<open>fft\<close> along the
  first. \<^verbatim>\<open>np.fft.irfft2(a)\<close>: \<open>ifft\<close> along the first axis, then \<open>irfft\<close> along the last,
  whose output length is \<open>2 * (c - 1)\<close> for \<open>c\<close> columns since the call gives no shape. An
  axis without data points is a \<^verbatim>\<open>ValueError\<close>.
\<close>

definition rfft2 :: "real list list \<Rightarrow> exception + complex list list" where
  "rfft2 a =
     (if fst (shape a) = 0 \<or> snd (shape a) = 0 then Inl ValueError
      else Inr (along_axis0 fft (map rfft a)))"

definition irfft2 :: "complex list list \<Rightarrow> exception + real list list" where
  "irfft2 a =
     (if fst (shape a) = 0 \<or> snd (shape a) \<le> 1 then Inl ValueError
      else Inr (map irfft (along_axis0 ifft a)))"

subsection \<open>The state of a \<^verbatim>\<open>Fluid\<close> object\<close>

text \<open>
  The attributes of the object. \<open>nx\<close>, \<open>ny\<close> and \<open>nk\<close> are natural numbers: the
  constructor returns only for positive grid sizes. The fields from \<open>k2\<close> on are created
  by \<^verbatim>\<open>init_solver\<close>, \<^verbatim>\<open>init_field\<close> or \<^verbatim>\<open>McWilliams1984\<close>. \<open>w0\<close> holds a real
  array after \<^verbatim>\<open>__init__\<close> and \<^verbatim>\<open>init_solver\<close> and a complex one after \<^verbatim>\<open>update\<close>;
  it is complex here.
\<close>

record fluid =
  nx :: nat
  ny :: nat
  nk :: nat
  Re_number :: real
  ReI :: real
  dt :: real
  pad :: real
  time :: real
  it :: int
  uptodate :: bool
  filterfac :: real
  x :: "real list"
  dx :: real
  y :: "real list"
  dy :: real
  kx :: "real list"
  ky :: "real list"
  u :: "real list list"
  v :: "real list list"
  w :: "real list list"
  w0 :: "complex list list"
  dwdt :: "real list list"
  k2 :: "real list list option"
  fk :: "bool list list option"
  wh :: "complex list list option"
  psih :: "complex list list option"
  dwhdt :: "complex list list option"
  mx :: "int option"
  mk :: "int option"
  my :: "int option"
  padder :: "bool list option"
  fltr :: "real list list option"

text \<open>An array given by its entries: the contents \<^verbatim>\<open>np.empty\<close> finds in memory, and
  the draws of \<^verbatim>\<open>np.random.randn\<close>, are inputs of the model.\<close>

definition tabulate2 :: "(nat \<Rightarrow> nat \<Rightarrow> 'a) \<Rightarrow> nat \<Rightarrow> nat \<Rightarrow> 'a list list" where
  "tabulate2 g r c = map (\<lambda>i. map (g i) [0..<c]) [0..<r]"

definition default_dt :: real where "default_dt = 1 / 10000"
definition default_pad :: real where "default_pad = 3 / 2"

text \<open>
  \<^verbatim>\<open>Fluid(nx, ny, Re, dt, pad)\<close>. \<^verbatim>\<open>np.linspace\<close> refuses a negative number of samples
  (\<^verbatim>\<open>ValueError\<close>) and \<^verbatim>\<open>np.fft.fftfreq(0)\<close> divides by zero. \<open>mem\<close> gives the contents
  of the five arrays that \<^verbatim>\<open>np.empty\<close> allocates.
\<close>

definition Fluid ::
  "int \<Rightarrow> int \<Rightarrow> real \<Rightarrow> real \<Rightarrow> real \<Rightarrow> (nat \<Rightarrow> nat \<Rightarrow> nat \<Rightarrow> real) \<Rightarrow> exception + fluid" where
  "Fluid n m re dt_arg pad_arg mem =
     (if n < 0 \<or> m < 0 then Inl ValueError
      else if n = 0 \<or> m = 0 then Inl ZeroDivisionError
      else Inr \<lparr>
        nx = nat n, ny = nat m, nk = nat m div 2 + 1,
        Re_number = re, ReI = (if re \<noteq> 0 then 1 / re else 0),
        dt = dt_arg, pad = pad_arg, time = 0, it = 0, uptodate = False,
        filterfac = 236 / 10,
        x = fst (linspace_2pi (nat n)), dx = snd (linspace_2pi (nat n)),
        y = fst (linspace_2pi (nat m)), dy = snd (linspace_2pi (nat m)),
        kx = wavenumbers (nat n), ky = wavenumbers (nat m),
        u = tabulate2 (mem 0) (nat n) (nat m),
        v = tabulate2 (mem 1) (nat n) (nat m),
        w = tabulate2 (mem 2) (nat n) (nat m),
        w0 = map (map complex_of_real) (tabulate2 (mem 3) (nat n) (nat m div 2 + 1)),
        dwdt = tabulate2 (mem 4) (nat n) (nat m),
        k2 = None, fk = None, wh = None, psih = None, dwhdt = None,
        mx = None, mk = None, my = None, padder = None, fltr = None \<rparr>)"

subsection \<open>Transforms and velocities\<close>

definition w_to_wh :: "fluid \<Rightarrow> exception + fluid" where
  "w_to_wh s = andThen (rfft2 (w s)) (\<lambda>h. Inr (s\<lparr>wh := Some h\<rparr>))"

definition wh_to_w :: "fluid \<Rightarrow> exception + fluid" where
  "wh_to_w s = andThen (attr (wh s)) (\<lambda>h. andThen (irfft2 h) (\<lambda>a. Inr (s\<lparr>w := a\<rparr>)))"

text \<open>\<^verbatim>\<open>1j*self.kx[:self.nk]\<close> as a row and \<^verbatim>\<open>1j*self.ky[:,np.newaxis]\<close> as a column.\<close>

definition ikx_row :: "fluid \<Rightarrow> complex list list" where
  "ikx_row s = [map (\<lambda>a. \<i> * complex_of_real a) (take (nk s) (kx s))]"

definition iky_col :: "fluid \<Rightarrow> complex list list" where
  "iky_col s = map (\<lambda>b. [\<i> * complex_of_real b]) (ky s)"

definition get_u :: "fluid \<Rightarrow> exception + fluid" where
  "get_u s = andThen (attr (psih s)) (\<lambda>p.
     andThen (elementwise (*) (iky_col s) p) (\<lambda>d.
     andThen (irfft2 d) (\<lambda>a. Inr (s\<lparr>u := a\<rparr>))))"

definition get_v :: "fluid \<Rightarrow> exception + fluid" where
  "get_v s = andThen (attr (psih s)) (\<lambda>p.
     andThen (elementwise (*) (ikx_row s) p) (\<lambda>d.
     andThen (irfft2 d) (\<lambda>a. Inr (s\<lparr>v := map (map uminus) a\<rparr>))))"

subsection \<open>Wavenumber grid, filter and \<^verbatim>\<open>init_solver\<close>\<close>

text \<open>\<^verbatim>\<open>self.kx[:self.nk]**2 + self.ky[:,np.newaxis]**2\<close>, the expression of
  \<^verbatim>\<open>init_solver\<close> and of \<^verbatim>\<open>McWilliams1984\<close>, and the mask \<^verbatim>\<open>k2 != 0.0\<close>.\<close>

definition k2_array :: "fluid \<Rightarrow> exception + real list list" where
  "k2_array s =
     elementwise (+) [map (\<lambda>a. a ^ 2) (take (nk s) (kx s))] (map (\<lambda>b. [b ^ 2]) (ky s))"

definition nonzero :: "real list list \<Rightarrow> bool list list" where
  "nonzero k = map (map (\<lambda>a. a \<noteq> 0)) k"

definition init_filter :: "fluid \<Rightarrow> exception + fluid" where
  "init_filter s = andThen (np_max (kx s)) (\<lambda>kmax.
     andThen (attr (k2 s)) (\<lambda>k.
       let cphi = 65 / 100 * kmax;
           wvx = map (map sqrt) k;
           filtr = map (map (\<lambda>a. exp (- filterfac s * (a - cphi) ^ 4))) wvx
       in andThen (mask_fill (map (map (\<lambda>a. a \<le> cphi)) wvx) filtr 1) (\<lambda>f.
            Inr (s\<lparr>fltr := Some f\<rparr>))))"

text \<open>\<^verbatim>\<open>self.padder\<close>: \<^verbatim>\<open>np.ones(mx)\<close> with the slice
  \<^verbatim>\<open>[int(nx/2) : int(nx*(pad-0.5))]\<close> set to \<open>False\<close>.\<close>

definition make_padder :: "fluid \<Rightarrow> exception + bool list" where
  "make_padder s = andThen (np_ones (py_int (pad s * real (nx s)))) (\<lambda>p.
     let lo = slice_index (length p) (py_int (real (nx s) / 2));
         hi = slice_index (length p) (py_int (real (nx s) * (pad s - 1 / 2)))
     in Inr (map (\<lambda>i. if lo \<le> i \<and> i < hi then False else p ! i) [0..<length p]))"

text \<open>\<^verbatim>\<open>init_solver\<close> in its four parts: the \<^verbatim>\<open>try\<close> block that builds \<open>k2\<close> and
  \<open>fk\<close> unless \<open>k2\<close> exists, the arrays and sizes it assigns, the padder and \<open>w0\<close>, and
  the \<^verbatim>\<open>try\<close> block that builds the filter unless one exists.\<close>

definition ensure_k2 :: "fluid \<Rightarrow> exception + fluid" where
  "ensure_k2 s =
     (case k2 s of
        Some _ \<Rightarrow> Inr s
      | None \<Rightarrow> andThen (k2_array s) (\<lambda>k. Inr (s\<lparr>k2 := Some k, fk := Some (nonzero k)\<rparr>)))"

definition solver_arrays :: "fluid \<Rightarrow> fluid" where
  "solver_arrays s =
     s\<lparr>wh := Some (zeros (nx s) (nk s)),
       psih := Some (zeros (nx s) (nk s)),
       dwhdt := Some (zeros (nx s) (nk s)),
       mx := Some (py_int (pad s * real (nx s))),
       mk := Some (py_int (pad s * real (nk s))),
       my := Some (py_int (pad s * real (nk s)))\<rparr>"

definition ensure_fltr :: "fluid \<Rightarrow> exception + fluid" where
  "ensure_fltr s = (case fltr s of Some _ \<Rightarrow> Inr s | None \<Rightarrow> init_filter s)"

definition init_solver :: "fluid \<Rightarrow> exception + fluid" where
  "init_solver s = andThen (ensure_k2 s) (\<lambda>s1.
     andThen (make_padder (solver_arrays s1)) (\<lambda>p.
       ensure_fltr ((solver_arrays s1)\<lparr>padder := Some p,
                                       w0 := map (map complex_of_real) (w s1)\<rparr>)))"

subsection \<open>Poisson inversion, convection and diffusion\<close>

text \<open>\<^verbatim>\<open>self.psih[self.fk] = self.wh[self.fk] / self.k2[self.fk]\<close>. The right-hand side is
  evaluated first; the two selections were taken with the same mask and have the same
  length.\<close>

definition get_psih :: "fluid \<Rightarrow> exception + fluid" where
  "get_psih s = andThen (attr (wh s)) (\<lambda>h.
     andThen (attr (fk s)) (\<lambda>m.
     andThen (mask_get m h) (\<lambda>hs.
     andThen (attr (k2 s)) (\<lambda>k.
     andThen (mask_get m k) (\<lambda>ks.
     andThen (attr (psih s)) (\<lambda>p.
     andThen (mask_set m p (map2 (\<lambda>a b. a / complex_of_real b) hs ks)) (\<lambda>p'.
       Inr (s\<lparr>psih := Some p'\<rparr>))))))))"

text \<open>One padded buffer of \<^verbatim>\<open>_add_convection\<close>: \<^verbatim>\<open>np.zeros((mx, mk))\<close> was allocated
  before, \<open>rhs\<close> is the spectral derivative; the buffer receives it at
  \<^verbatim>\<open>[self.padder, :self.nk]\<close>.\<close>

definition pad_into ::
  "fluid \<Rightarrow> complex list list \<Rightarrow> exception + complex list list \<Rightarrow> exception + complex list list"
  where
  "pad_into s buf rhs = andThen rhs (\<lambda>r.
     andThen (attr (padder s)) (\<lambda>p. set_rows_cols p (nk s) buf r))"

definition add_convection :: "fluid \<Rightarrow> exception + fluid" where
  "add_convection s = andThen (attr (mx s)) (\<lambda>m.
     andThen (attr (mk s)) (\<lambda>n.
     andThen (np_zeros m n) (\<lambda>buf.
     andThen (attr (psih s)) (\<lambda>p.
     andThen (pad_into s buf (elementwise (*) (ikx_row s) p)) (\<lambda>j1f_padded.
     andThen (attr (wh s)) (\<lambda>h.
     andThen (pad_into s buf (elementwise (*) (iky_col s) h)) (\<lambda>j2f_padded.
     andThen (pad_into s buf (elementwise (*) (iky_col s) p)) (\<lambda>j3f_padded.
     andThen (pad_into s buf (elementwise (*) (ikx_row s) h)) (\<lambda>j4f_padded.
     andThen (irfft2 j1f_padded) (\<lambda>j1.
     andThen (irfft2 j2f_padded) (\<lambda>j2.
     andThen (irfft2 j3f_padded) (\<lambda>j3.
     andThen (irfft2 j4f_padded) (\<lambda>j4.
     andThen (elementwise (*) j1 j2) (\<lambda>j12.
     andThen (elementwise (*) j3 j4) (\<lambda>j34.
     andThen (elementwise (-) j12 j34) (\<lambda>jac.
     andThen (rfft2 jac) (\<lambda>jacpf.
     andThen (attr (padder s)) (\<lambda>pd.
     andThen (get_rows_cols pd (nk s) jacpf) (\<lambda>sel.
     andThen (attr (dwhdt s)) (\<lambda>d.
     andThen (assign_all d (map (map (\<lambda>z. z * complex_of_real (pad s ^ 2))) sel)) (\<lambda>d'.
       Inr (s\<lparr>dwhdt := Some d'\<rparr>))))))))))))))))))))))"

text \<open>\<^verbatim>\<open>self.dwhdt -= self.ReI*self.k2*self.wh\<close>: the target is read first.\<close>

definition add_diffusion :: "fluid \<Rightarrow> exception + fluid" where
  "add_diffusion s = andThen (attr (dwhdt s)) (\<lambda>d.
     andThen (attr (k2 s)) (\<lambda>k.
     andThen (attr (wh s)) (\<lambda>h.
     andThen (elementwise (\<lambda>a b. complex_of_real a * b) (map (map (\<lambda>a. ReI s * a)) k) h) (\<lambda>r.
     andThen (inplace (-) d r) (\<lambda>d'.
       Inr (s\<lparr>dwhdt := Some d'\<rparr>))))))"

subsection \<open>The CFL estimate and the Runge-Kutta step\<close>

text \<open>The array under \<^verbatim>\<open>np.max\<close> in \<open>Dc\<close>, the constant \<open>Dmu\<close> (a scalar, so its
  \<^verbatim>\<open>np.max\<close> is itself), and \<^verbatim>\<open>_cfl_limit\<close>.\<close>

definition cfl_field :: "fluid \<Rightarrow> exception + real list list" where
  "cfl_field s = andThen
     (elementwise (+) (map (map (\<lambda>a. (1 + \<bar>a\<bar>) / dx s)) (u s))
                      (map (map (\<lambda>b. (1 + \<bar>b\<bar>) / dy s)) (v s)))
     (\<lambda>e. Inr (map (map (\<lambda>c. pi * c)) e))"

definition Dmu :: "fluid \<Rightarrow> real" where
  "Dmu s = pi ^ 2 * (inverse (dx s ^ 2) + inverse (dy s ^ 2))"

definition cfl_limit :: "fluid \<Rightarrow> exception + fluid" where
  "cfl_limit s = andThen (get_u s) (\<lambda>s1.
     andThen (get_v s1) (\<lambda>s2.
     andThen (cfl_field s2) (\<lambda>e.
     andThen (np_max (concat e)) (\<lambda>Dc.
       Inr (s2\<lparr>dt := sqrt 3 / (Dc + Dmu s2)\<rparr>)))))"

text \<open>The body of the loop \<^verbatim>\<open>for k in range(s, 0, -1)\<close> of \<^verbatim>\<open>update\<close>, for the stage
  number \<open>k\<close>, and the loop from \<open>k\<close> down to 1.\<close>

definition rk_stage :: "nat \<Rightarrow> fluid \<Rightarrow> exception + fluid" where
  "rk_stage k s = andThen (get_psih s) (\<lambda>s1.
     andThen (add_convection s1) (\<lambda>s2.
     andThen (add_diffusion s2) (\<lambda>s3.
     andThen (attr (dwhdt s3)) (\<lambda>d.
     andThen (elementwise (+) (w0 s3)
                (map (map (\<lambda>a. complex_of_real (dt s3 / real k) * a)) d)) (\<lambda>h.
       Inr (s3\<lparr>wh := Some h\<rparr>))))))"

fun rk_stages :: "nat \<Rightarrow> fluid \<Rightarrow> exception + fluid" where
  "rk_stages 0 s = Inr s"
| "rk_stages (Suc k) s = andThen (rk_stage (Suc k) s) (rk_stages k)"

text \<open>\<^verbatim>\<open>update(s)\<close>; the stage count is \<open>n\<close> here, a Python integer (the range is empty
  for \<open>n \<le> 0\<close>).\<close>

definition update :: "int \<Rightarrow> fluid \<Rightarrow> exception + fluid" where
  "update n s = andThen (attr (wh s)) (\<lambda>h.
     andThen (rk_stages (nat n) (s\<lparr>w0 := h\<rparr>)) (\<lambda>s1.
       cfl_limit (s1\<lparr>time := time s1 + dt s1, it := it s1 + 1\<rparr>)))"

subsection \<open>Initial conditions\<close>

text \<open>\<^verbatim>\<open>_spec_variance(ph)\<close>: the first and the last column are halved in place (an
  array without columns has no such column).\<close>

definition halve_at :: "nat \<Rightarrow> real list \<Rightarrow> real list" where
  "halve_at i r = r[i := r ! i / 2]"

definition spec_variance :: "fluid \<Rightarrow> complex list list \<Rightarrow> exception + real" where
  "spec_variance s ph =
     (let var_dens = map (map (\<lambda>z. 2 * cmod z ^ 2 / real (nx s * ny s) ^ 2)) ph
      in if snd (shape var_dens) = 0 then Inl IndexError
         else Inr (sum_list (concat
                (map (\<lambda>r. halve_at (length r - 1) (halve_at 0 r)) var_dens))))"

text \<open>\<^verbatim>\<open>McWilliams1984\<close>; \<open>g1\<close> and \<open>g2\<close> are the two draws of
  \<^verbatim>\<open>np.random.randn(nx, nk)\<close>.\<close>

definition McWilliams1984 ::
  "(nat \<Rightarrow> nat \<Rightarrow> real) \<Rightarrow> (nat \<Rightarrow> nat \<Rightarrow> real) \<Rightarrow> fluid \<Rightarrow> exception + fluid" where
  "McWilliams1984 g1 g2 s0 = andThen (k2_array s0) (\<lambda>k.
     let s = s0\<lparr>k2 := Some k, fk := Some (nonzero k)\<rparr>; m = nonzero k
     in andThen (mask_get m k) (\<lambda>ks.
     andThen (mask_set m (zeros (nx s) (nk s))
        (map (\<lambda>a. inverse (sqrt (a * (1 + (a / 36) ^ 2)))) ks)) (\<lambda>ck.
     andThen (elementwise (*) (tabulate2 g1 (nx s) (nk s)) ck) (\<lambda>re_part.
     andThen (elementwise (\<lambda>a b. \<i> * complex_of_real a * complex_of_real b)
        (tabulate2 g2 (nx s) (nk s)) ck) (\<lambda>im_part.
     andThen (elementwise (\<lambda>a b. complex_of_real a + b) re_part im_part) (\<lambda>psih1.
     andThen (irfft2 psih1) (\<lambda>psi.
     andThen (rfft2 (map (map (\<lambda>a. a - sum_list (concat psi) / real (length (concat psi))))
        psi)) (\<lambda>psih2.
     andThen (attr (fltr s)) (\<lambda>f.
     andThen (elementwise (*) f (map (map sqrt) k)) (\<lambda>fs.
     andThen (elementwise (\<lambda>a b. complex_of_real a * b) fs psih2) (\<lambda>ph.
     andThen (spec_variance s ph) (\<lambda>KEaux.
     andThen (elementwise (\<lambda>a b. complex_of_real a * b) k
        (map (map (\<lambda>z. z / complex_of_real (sqrt KEaux))) psih2)) (\<lambda>h.
     andThen (irfft2 h) (\<lambda>a. Inr (s\<lparr>w := a\<rparr>)))))))))))))))"

text \<open>The argument \<^verbatim>\<open>field\<close> of \<^verbatim>\<open>init_field\<close>: a string or an array.\<close>

datatype field = Name string | Array "real list list"

definition default_t :: real where "default_t = 0"
definition default_kappa :: real where "default_kappa = 2"
definition default_delta :: real where "default_delta = 5 / 1000"
definition default_sigma :: real where "default_sigma = 15 / pi"

text \<open>The right operand of \<^verbatim>\<open>+\<close> in the \<^verbatim>\<open>print\<close> of the unknown-name branch, the
  string that \<^verbatim>\<open>%\<close> formats with the name (\<^verbatim>\<open>%\<close> binds tighter than \<^verbatim>\<open>+\<close>).\<close>

definition unknown_field_format :: string where
  "unknown_field_format =
     [CHR '':'', CHR '' '', CHR 0x22] @ ''Taylor-Green'' @ [CHR 0x22, CHR '','', CHR '' '', CHR 0x22]
     @ ''Shear Layer'' @ [CHR 0x22, CHR ''.'']"

definition taylor_green :: "real \<Rightarrow> real \<Rightarrow> fluid \<Rightarrow> exception + real list list" where
  "taylor_green t kappa s =
     andThen (elementwise (*) [map (\<lambda>a. 2 * kappa * cos (kappa * a)) (x s)]
                (map (\<lambda>b. [cos (kappa * b)]) (y s))) (\<lambda>c.
     andThen (py_div (- 2 * kappa ^ 2 * t) (Re_number s)) (\<lambda>e.
       Inr (map (map (\<lambda>a. a * exp e)) c)))"

definition shear_layer :: "real \<Rightarrow> real \<Rightarrow> fluid \<Rightarrow> exception + real list list" where
  "shear_layer delta sigma s =
     andThen (elementwise (-) [map (\<lambda>a. delta * cos a) (x s)]
                (map (\<lambda>b. [sigma * inverse (cosh (sigma * (b - pi / 2)) ^ 2)]) (y s))) (\<lambda>w1.
     andThen (elementwise (+) [map (\<lambda>a. delta * cos a) (x s)]
                (map (\<lambda>b. [sigma * inverse (cosh (sigma * (3 * pi / 2 - b)) ^ 2)]) (y s))) (\<lambda>w2.
       inplace (+) w1 w2))"

text \<open>\<^verbatim>\<open>init_field\<close>: the branches that choose the field, then \<^verbatim>\<open>self.w_to_wh()\<close>.
  The two \<^verbatim>\<open>print\<close> calls write to the standard output, which is not part of the state:
  the one of the array branch has a constant argument, the one of the unknown-name branch
  must build its argument first.\<close>

definition choose_field ::
  "field \<Rightarrow> real \<Rightarrow> real \<Rightarrow> real \<Rightarrow> real \<Rightarrow> (nat \<Rightarrow> nat \<Rightarrow> real) \<Rightarrow> (nat \<Rightarrow> nat \<Rightarrow> real) \<Rightarrow> fluid
     \<Rightarrow> exception + fluid" where
  "choose_field field t kappa delta sigma g1 g2 s =
     (case field of
        Name n \<Rightarrow>
          if n = ''TG'' \<or> n = ''Taylor-Green'' then
            andThen (taylor_green t kappa s) (\<lambda>a. Inr (s\<lparr>w := a\<rparr>))
          else if n = ''SL'' \<or> n = ''Shear Layer'' then
            andThen (shear_layer delta sigma s) (\<lambda>a. Inr (s\<lparr>w := a\<rparr>))
          else if n = ''McWilliams'' \<or> n = ''MW84'' then McWilliams1984 g1 g2 s
          else andThen (py_format unknown_field_format n False) (\<lambda>msg. Inr s)
      | Array a \<Rightarrow> if shape a = (nx s, ny s) then Inr (s\<lparr>w := a\<rparr>) else Inr s)"

definition init_field ::
  "field \<Rightarrow> real \<Rightarrow> real \<Rightarrow> real \<Rightarrow> real \<Rightarrow> (nat \<Rightarrow> nat \<Rightarrow> real) \<Rightarrow> (nat \<Rightarrow> nat \<Rightarrow> real) \<Rightarrow> fluid
     \<Rightarrow> exception + fluid" where
  "init_field field t kappa delta sigma g1 g2 s =
     andThen (choose_field field t kappa delta sigma g1 g2 s) w_to_wh"

subsection \<open>The states an object can reach\<close>

text \<open>
  The grid data, which no method changes after construction, and the states of an object
  that was built by the constructor and then driven through calls of its methods that
  returned. A caller may also store a spectral vorticity of its own in \<open>wh\<close>. (An
  exception ends the run: the object a failed call leaves behind is not modelled.)
\<close>

definition grid ::
  "fluid \<Rightarrow> nat \<times> nat \<times> nat \<times> real list \<times> real list \<times> real list \<times> real list \<times> real \<times> real" where
  "grid s = (nx s, ny s, nk s, kx s, ky s, x s, y s, dx s, dy s)"

inductive reachable :: "fluid \<Rightarrow> bool" where
  construct: "Fluid n m re d p mem = Inr s \<Longrightarrow> reachable s"
| call_init_solver: "reachable s \<Longrightarrow> init_solver s = Inr s' \<Longrightarrow> reachable s'"
| call_init_field:
    "reachable s \<Longrightarrow> init_field f t kappa delta sigma g1 g2 s = Inr s' \<Longrightarrow> reachable s'"
| call_McWilliams1984: "reachable s \<Longrightarrow> McWilliams1984 g1 g2 s = Inr s' \<Longrightarrow> reachable s'"
| call_init_filter: "reachable s \<Longrightarrow> init_filter s = Inr s' \<Longrightarrow> reachable s'"
| call_w_to_wh: "reachable s \<Longrightarrow> w_to_wh s = Inr s' \<Longrightarrow> reachable s'"
| call_wh_to_w: "reachable s \<Longrightarrow> wh_to_w s = Inr s' \<Longrightarrow> reachable s'"
| call_get_u: "reachable s \<Longrightarrow> get_u s = Inr s' \<Longrightarrow> reachable s'"
| call_get_v: "reachable s \<Longrightarrow> get_v s = Inr s' \<Longrightarrow> reachable s'"
| call_get_psih: "reachable s \<Longrightarrow> get_psih s = Inr s' \<Longrightarrow> reachable s'"
| call_add_convection: "reachable s \<Longrightarrow> add_convection s = Inr s' \<Longrightarrow> reachable s'"
| call_add_diffusion: "reachable s \<Longrightarrow> add_diffusion s = Inr s' \<Longrightarrow> reachable s'"
| call_cfl_limit: "reachable s \<Longrightarrow> cfl_limit s = Inr s' \<Longrightarrow> reachable s'"
| call_update: "reachable s \<Longrightarrow> update n s = Inr s' \<Longrightarrow> reachable s'"
| store_wh: "reachable s \<Longrightarrow> reachable (s\<lparr>wh := Some h\<rparr>)"

text \<open>The grid data that the constructor builds for the sizes \<open>n\<close> and \<open>m\<close>.\<close>

definition grid_of ::
  "nat \<Rightarrow> nat \<Rightarrow> nat \<times> nat \<times> nat \<times> real list \<times> real list \<times> real list \<times> real list \<times> real \<times> real" where
  "grid_of n m = (n, m, m div 2 + 1, wavenumbers n, wavenumbers m,
     fst (linspace_2pi n), fst (linspace_2pi m), snd (linspace_2pi n), snd (linspace_2pi m))"

text \<open>
  The filter array that \<^verbatim>\<open>_init_filter\<close> builds from the array \<open>k\<close> of squared
  wavenumbers, entry by entry, and the facts that hold in every reachable state: the filter
  factor is the constructor's, \<open>k2\<close> and \<open>fk\<close> are the arrays of the grid, \<open>psih\<close> has the
  shape \<open>(nx, nk)\<close> and a zero first entry, and the cached filter is the filter of \<open>k2\<close>.
\<close>

definition filter_of :: "fluid \<Rightarrow> real list list \<Rightarrow> real list list" where
  "filter_of s k = map (map (\<lambda>a.
     if sqrt a \<le> 65 / 100 * Max (set (kx s)) then 1
     else exp (- filterfac s * (sqrt a - 65 / 100 * Max (set (kx s))) ^ 4))) k"

definition solver_inv :: "fluid \<Rightarrow> bool" where
  "solver_inv s \<longleftrightarrow>
     filterfac s = 236 / 10
     \<and> (\<forall>k. k2 s = Some k \<longrightarrow> k2_array s = Inr k \<and> fk s = Some (nonzero k))
     \<and> (\<forall>p. psih s = Some p \<longrightarrow>
            k2 s \<noteq> None \<and> map length p = replicate (nx s) (nk s) \<and> p ! 0 ! 0 = 0)
     \<and> (\<forall>f. fltr s = Some f \<longrightarrow> (\<exists>k. k2 s = Some k \<and> f = filter_of s k))"

definition grid_ok :: "fluid \<Rightarrow> bool" where
  "grid_ok s \<longleftrightarrow> 0 < nx s \<and> 0 < ny s \<and> grid s = grid_of (nx s) (ny s)"

text \<open>
  Two objects for the examples: \<^verbatim>\<open>Fluid(4, 4, 1.)\<close> with the default step and padding
  (its uninitialised arrays read as zero), and the same object after \<^verbatim>\<open>init_solver()\<close>.
\<close>

definition example_fluid :: fluid where
  "example_fluid = projr (Fluid 4 4 1 default_dt default_pad (\<lambda>a i j. 0))"

definition example_solver :: fluid where
  "example_solver = projr (init_solver example_fluid)"

text \<open>A spectral vorticity for the examples, stored in the solver above.\<close>

definition example_wh :: "complex list list" where
  "example_wh = [[1, 2, 3], [4, 5 + \<i>, 6], [7, 8, 9], [10, 11, 12]]"

definition example_state :: fluid where
  "example_state = example_solver\<lparr>wh := Some example_wh\<rparr>"

(*DEFS-END*)

section \<open>Properties\<close>

subsection \<open>Sequencing\<close>

lemma andThen_Inr [simp]: "andThen (Inr a) f = f a"
  by (simp add: andThen_def)

lemma andThen_Inl [simp]: "andThen (Inl e) f = Inl e"
  by (simp add: andThen_def)

lemma andThen_eq_Inr: "andThen m f = Inr b \<longleftrightarrow> (\<exists>a. m = Inr a \<and> f a = Inr b)"
  by (cases m) simp_all

lemma attr_eq_Inr [simp]: "attr a = Inr b \<longleftrightarrow> a = Some b"
  by (cases a) (simp_all add: attr_def)

lemma attr_Some [simp]: "attr (Some b) = Inr b"
  by (simp add: attr_def)

lemma attr_None [simp]: "attr None = Inl AttributeError"
  by (simp add: attr_def)

subsection \<open>What each method changes\<close>

lemma frame_w_to_wh: "w_to_wh s = Inr s' \<Longrightarrow> \<exists>a. s' = s\<lparr>wh := Some a\<rparr>"
  by (auto simp: w_to_wh_def andThen_eq_Inr)

lemma frame_wh_to_w: "wh_to_w s = Inr s' \<Longrightarrow> \<exists>a. s' = s\<lparr>w := a\<rparr>"
  by (auto simp: wh_to_w_def andThen_eq_Inr)

lemma frame_get_u: "get_u s = Inr s' \<Longrightarrow> \<exists>a. s' = s\<lparr>u := a\<rparr>"
  by (auto simp: get_u_def andThen_eq_Inr)

lemma frame_get_v: "get_v s = Inr s' \<Longrightarrow> \<exists>a. s' = s\<lparr>v := a\<rparr>"
  by (auto simp: get_v_def andThen_eq_Inr)

lemma frame_get_psih: "get_psih s = Inr s' \<Longrightarrow> \<exists>a. s' = s\<lparr>psih := Some a\<rparr>"
  by (auto simp: get_psih_def andThen_eq_Inr)

lemma frame_init_filter: "init_filter s = Inr s' \<Longrightarrow> \<exists>a. s' = s\<lparr>fltr := Some a\<rparr>"
  by (auto simp: init_filter_def andThen_eq_Inr Let_def)

lemma frame_add_convection: "add_convection s = Inr s' \<Longrightarrow> \<exists>a. s' = s\<lparr>dwhdt := Some a\<rparr>"
  by (auto simp: add_convection_def andThen_eq_Inr)

lemma frame_add_diffusion: "add_diffusion s = Inr s' \<Longrightarrow> \<exists>a. s' = s\<lparr>dwhdt := Some a\<rparr>"
  by (auto simp: add_diffusion_def andThen_eq_Inr)

lemma frame_cfl_limit: "cfl_limit s = Inr s' \<Longrightarrow> \<exists>a b c. s' = s\<lparr>u := a, v := b, dt := c\<rparr>"
  by (auto simp: cfl_limit_def get_u_def get_v_def andThen_eq_Inr)

lemma rk_stage_steps:
  assumes "rk_stage k s = Inr s'"
  obtains s1 s2 s3 d h where "get_psih s = Inr s1" "add_convection s1 = Inr s2"
    "add_diffusion s2 = Inr s3" "dwhdt s3 = Some d"
    "elementwise (+) (w0 s3) (map (map (\<lambda>a. complex_of_real (dt s3 / real k) * a)) d) = Inr h"
    "s' = s3\<lparr>wh := Some h\<rparr>"
  using assms unfolding rk_stage_def andThen_eq_Inr attr_eq_Inr by blast

lemma frame_rk_stage:
  assumes "rk_stage k s = Inr s'"
  shows "\<exists>a b c. s' = s\<lparr>psih := Some a, dwhdt := Some b, wh := Some c\<rparr>"
proof -
  from assms obtain s1 s2 s3 h where st: "get_psih s = Inr s1" "add_convection s1 = Inr s2"
    "add_diffusion s2 = Inr s3" "s' = s3\<lparr>wh := Some h\<rparr>"
    by (rule rk_stage_steps)
  from st(1) obtain a where a: "s1 = s\<lparr>psih := Some a\<rparr>"
    using frame_get_psih by blast
  from st(2) obtain b where b: "s2 = s1\<lparr>dwhdt := Some b\<rparr>"
    using frame_add_convection by blast
  from st(3) obtain c where c: "s3 = s2\<lparr>dwhdt := Some c\<rparr>"
    using frame_add_diffusion by blast
  have "s' = s\<lparr>psih := Some a, dwhdt := Some c, wh := Some h\<rparr>"
    by (simp add: st(4) a b c)
  then show ?thesis by blast
qed

lemma ensure_k2_cases:
  assumes "ensure_k2 s = Inr s1"
  shows "s1 = s \<and> k2 s \<noteq> None \<or>
     (\<exists>k. k2 s = None \<and> k2_array s = Inr k \<and> s1 = s\<lparr>k2 := Some k, fk := Some (nonzero k)\<rparr>)"
  using assms by (cases "k2 s") (auto simp: ensure_k2_def andThen_eq_Inr)

lemma ensure_fltr_cases:
  assumes "ensure_fltr s = Inr s'"
  shows "s' = s \<and> fltr s \<noteq> None \<or> fltr s = None \<and> init_filter s = Inr s'"
  using assms by (cases "fltr s") (auto simp: ensure_fltr_def)

lemma init_solver_steps:
  assumes "init_solver s = Inr s'"
  obtains s1 p where "ensure_k2 s = Inr s1" "make_padder (solver_arrays s1) = Inr p"
    "ensure_fltr ((solver_arrays s1)\<lparr>padder := Some p,
        w0 := map (map complex_of_real) (w s1)\<rparr>) = Inr s'"
  using assms unfolding init_solver_def andThen_eq_Inr by blast

lemma init_field_steps:
  assumes "init_field f t kappa delta sigma g1 g2 s = Inr s'"
  obtains s1 where "choose_field f t kappa delta sigma g1 g2 s = Inr s1" "w_to_wh s1 = Inr s'"
  using assms unfolding init_field_def andThen_eq_Inr by blast

lemma choose_field_cases:
  assumes "choose_field f t kappa delta sigma g1 g2 s = Inr s1"
  shows "(\<exists>a. s1 = s\<lparr>w := a\<rparr>) \<or> s1 = s \<or> McWilliams1984 g1 g2 s = Inr s1"
proof (cases f)
  case (Name n)
  with assms show ?thesis
    unfolding choose_field_def by (simp add: andThen_eq_Inr split: if_splits) blast+
next
  case (Array a)
  with assms show ?thesis
    unfolding choose_field_def by (simp split: if_splits) blast+
qed

lemma frame_McWilliams1984:
  "McWilliams1984 g1 g2 s = Inr s' \<Longrightarrow> \<exists>k a. k2_array s = Inr k \<and>
     s' = s\<lparr>k2 := Some k, fk := Some (nonzero k), w := a\<rparr>"
  by (auto simp: McWilliams1984_def andThen_eq_Inr Let_def)

subsection \<open>The grid is fixed\<close>

lemma grid_rk_stage: "rk_stage k s = Inr s' \<Longrightarrow> grid s' = grid s"
  by (auto simp: grid_def dest!: frame_rk_stage)

lemma grid_rk_stages: "rk_stages k s = Inr s' \<Longrightarrow> grid s' = grid s"
  by (induction k arbitrary: s) (auto simp: andThen_eq_Inr dest: grid_rk_stage)

lemma grid_update: "update n s = Inr s' \<Longrightarrow> grid s' = grid s"
  by (auto simp: update_def andThen_eq_Inr grid_def dest!: grid_rk_stages frame_cfl_limit)

lemma grid_McWilliams1984: "McWilliams1984 g1 g2 s = Inr s' \<Longrightarrow> grid s' = grid s"
  by (auto simp: grid_def dest!: frame_McWilliams1984)

lemma grid_init_field:
  assumes "init_field f t kappa delta sigma g1 g2 s = Inr s'"
  shows "grid s' = grid s"
proof -
  from assms obtain s1 where br: "choose_field f t kappa delta sigma g1 g2 s = Inr s1"
    and tr: "w_to_wh s1 = Inr s'"
    by (rule init_field_steps)
  from choose_field_cases[OF br] have "grid s1 = grid s"
    by (auto simp: grid_def dest: grid_McWilliams1984)
  moreover from tr have "grid s' = grid s1"
    by (auto simp: grid_def dest!: frame_w_to_wh)
  ultimately show ?thesis by simp
qed

lemma grid_init_solver:
  assumes "init_solver s = Inr s'"
  shows "grid s' = grid s"
proof -
  from assms obtain s1 p where a: "ensure_k2 s = Inr s1"
    and d: "ensure_fltr ((solver_arrays s1)\<lparr>padder := Some p,
        w0 := map (map complex_of_real) (w s1)\<rparr>) = Inr s'"
    by (rule init_solver_steps)
  from ensure_k2_cases[OF a] have "grid s1 = grid s"
    by (auto simp: grid_def)
  moreover from ensure_fltr_cases[OF d] have "grid s' = grid s1"
    by (auto simp: grid_def solver_arrays_def dest!: frame_init_filter)
  ultimately show ?thesis by simp
qed

subsection \<open>Broadcasting a row against a column\<close>

lemma zip_replicate_map:
  "zip (replicate (length cs) r) (map h cs) = map (\<lambda>b. (r, h b)) cs"
  by (induction cs) simp_all

lemma map2_replicate_right:
  "map2 f r (replicate (length r) c) = map (\<lambda>a. f a c) r"
  by (induction r) simp_all

lemma shape_row [simp]: "shape [r] = (1, length r)"
  by (simp add: shape_def)

lemma shape_col: "cs \<noteq> [] \<Longrightarrow> shape (map (\<lambda>b. [g b]) cs) = (length cs, 1)"
  by (cases cs) (simp_all add: shape_def)

lemma stretch_same [simp]: "length r = n \<Longrightarrow> stretch n r = r"
  by (simp add: stretch_def)

lemma stretch_single [simp]: "stretch n [a] = replicate n a"
  by (cases "n = 1") (simp_all add: stretch_def)

lemma bdim_one_left [simp]: "bdim (Suc 0) n = Some n"
  by (simp add: bdim_def)

lemma bdim_one_right [simp]: "bdim n (Suc 0) = Some n"
  by (simp add: bdim_def)

lemma bdim_same [simp]: "bdim n n = Some n"
  by (simp add: bdim_def)

lemma elementwise_row_col:
  assumes "cs \<noteq> []"
  shows "elementwise f [r] (map (\<lambda>b. [g b]) cs) = Inr (map (\<lambda>b. map (\<lambda>a. f a (g b)) r) cs)"
proof -
  have 1: "broadcast_to (length cs, length r) [r] = replicate (length cs) r"
    by (simp add: broadcast_to_def)
  have 2: "broadcast_to (length cs, length r) (map (\<lambda>b. [g b]) cs)
      = map (\<lambda>b. replicate (length r) (g b)) cs"
    by (simp add: broadcast_to_def o_def)
  show ?thesis
    unfolding elementwise_def
    by (simp add: shape_col[OF assms] 1 2 zip_replicate_map map2_replicate_right o_def)
qed

subsection \<open>Reachable states keep the constructor's grid\<close>

lemma grid_Fluid:
  assumes "Fluid n m re d p mem = Inr s"
  shows "0 < nx s \<and> 0 < ny s \<and> grid s = grid_of (nx s) (ny s) \<and> filterfac s = 236 / 10
     \<and> Re_number s = re"
proof -
  from assms have nm: "0 < n" "0 < m"
    by (auto simp: Fluid_def split: if_splits)
  with assms show ?thesis
    by (auto simp: Fluid_def grid_def grid_of_def)
qed

lemma grid_ok_transfer:
  assumes "grid s' = grid s" "0 < nx s \<and> 0 < ny s \<and> grid s = grid_of (nx s) (ny s)"
  shows "0 < nx s' \<and> 0 < ny s' \<and> grid s' = grid_of (nx s') (ny s')"
proof -
  from assms(1) have "nx s' = nx s" "ny s' = ny s"
    by (simp_all add: grid_def)
  with assms show ?thesis by simp
qed

lemma reachable_grid:
  "reachable s \<Longrightarrow> 0 < nx s \<and> 0 < ny s \<and> grid s = grid_of (nx s) (ny s)"
proof (induction rule: reachable.induct)
  case (construct n m re d p mem s)
  then show ?case using grid_Fluid by blast
next
  case (call_init_solver s s')
  then show ?case using grid_ok_transfer[OF grid_init_solver] by blast
next
  case (call_init_field s f t kappa delta sigma g1 g2 s')
  then show ?case using grid_ok_transfer[OF grid_init_field] by blast
next
  case (call_McWilliams1984 s g1 g2 s')
  then show ?case using grid_ok_transfer[OF grid_McWilliams1984] by blast
next
  case (call_init_filter s s')
  then have "grid s' = grid s" by (auto simp: grid_def dest!: frame_init_filter)
  with call_init_filter show ?case using grid_ok_transfer by blast
next
  case (call_w_to_wh s s')
  then have "grid s' = grid s" by (auto simp: grid_def dest!: frame_w_to_wh)
  with call_w_to_wh show ?case using grid_ok_transfer by blast
next
  case (call_wh_to_w s s')
  then have "grid s' = grid s" by (auto simp: grid_def dest!: frame_wh_to_w)
  with call_wh_to_w show ?case using grid_ok_transfer by blast
next
  case (call_get_u s s')
  then have "grid s' = grid s" by (auto simp: grid_def dest!: frame_get_u)
  with call_get_u show ?case using grid_ok_transfer by blast
next
  case (call_get_v s s')
  then have "grid s' = grid s" by (auto simp: grid_def dest!: frame_get_v)
  with call_get_v show ?case using grid_ok_transfer by blast
next
  case (call_get_psih s s')
  then have "grid s' = grid s" by (auto simp: grid_def dest!: frame_get_psih)
  with call_get_psih show ?case using grid_ok_transfer by blast
next
  case (call_add_convection s s')
  then have "grid s' = grid s" by (auto simp: grid_def dest!: frame_add_convection)
  with call_add_convection show ?case using grid_ok_transfer by blast
next
  case (call_add_diffusion s s')
  then have "grid s' = grid s" by (auto simp: grid_def dest!: frame_add_diffusion)
  with call_add_diffusion show ?case using grid_ok_transfer by blast
next
  case (call_cfl_limit s s')
  then have "grid s' = grid s" by (auto simp: grid_def dest!: frame_cfl_limit)
  with call_cfl_limit show ?case using grid_ok_transfer by blast
next
  case (call_update s n s')
  then show ?case using grid_ok_transfer[OF grid_update] by blast
next
  case (store_wh s h)
  have "grid (s\<lparr>wh := Some h\<rparr>) = grid s" by (simp add: grid_def)
  with store_wh show ?case using grid_ok_transfer by blast
qed

lemma reachable_xy:
  assumes "reachable s"
  shows "x s \<noteq> []" "y s \<noteq> []" "kx s = wavenumbers (nx s)" "ky s = wavenumbers (ny s)"
    "nk s = ny s div 2 + 1" "0 < nx s" "0 < ny s"
  using reachable_grid[OF assms] by (auto simp: grid_def grid_of_def linspace_2pi_def)

subsection \<open>Taylor-Green without viscosity\<close>

lemma taylor_green_inviscid:
  assumes "y s \<noteq> []" "Re_number s = 0"
  shows "taylor_green t kappa s = Inl ZeroDivisionError"
  unfolding taylor_green_def
  by (simp add: elementwise_row_col[OF assms(1)] py_div_def assms(2))

text \<open>
  Claim C10. On every object built with \<^verbatim>\<open>Re == 0\<close>, whatever methods were called on it
  since, \<^verbatim>\<open>init_field\<close> with the name \<^verbatim>\<open>"TG"\<close> or \<^verbatim>\<open>"Taylor-Green"\<close> raises
  \<^verbatim>\<open>ZeroDivisionError\<close>, for every time \<open>t\<close> and every \<open>kappa\<close>: the exponent
  \<^verbatim>\<open>-2 * kappa**2 * t / self.Re\<close> divides two Python floats, and nothing guards the
  division. (\<open>Re_number\<close> is set by the constructor only.)
\<close>

theorem inviscid_taylor_green_raises:
  assumes "reachable s" "Re_number s = 0" "n = ''TG'' \<or> n = ''Taylor-Green''"
  shows "init_field (Name n) t kappa delta sigma g1 g2 s = Inl ZeroDivisionError"
proof -
  have "taylor_green t kappa s = Inl ZeroDivisionError"
    using reachable_xy(2)[OF assms(1)] assms(2) by (rule taylor_green_inviscid)
  with assms(3) show ?thesis
    by (auto simp: init_field_def choose_field_def)
qed

theorem inviscid_taylor_green_raises_witness:
  "init_field (Name ''Taylor-Green'') default_t default_kappa default_delta default_sigma
     (\<lambda>i j. 0) (\<lambda>i j. 0) (projr (Fluid 4 4 0 default_dt default_pad (\<lambda>a i j. 0)))
   = Inl ZeroDivisionError"
proof -
  have "Fluid 4 4 0 default_dt default_pad (\<lambda>a i j. 0)
      = Inr (projr (Fluid 4 4 0 default_dt default_pad (\<lambda>a i j. 0)))"
    by (simp add: Fluid_def)
  then have r: "reachable (projr (Fluid 4 4 0 default_dt default_pad (\<lambda>a i j. 0)))"
    by (rule construct)
  have z: "Re_number (projr (Fluid 4 4 0 default_dt default_pad (\<lambda>a i j. 0))) = 0"
    by (simp add: Fluid_def)
  show ?thesis
    using inviscid_taylor_green_raises[OF r z, of "''Taylor-Green''"] by simp
qed

subsection \<open>An unknown field name\<close>

lemma py_format_exception:
  "py_format fmt a used = Inl e \<Longrightarrow> e = TypeError \<or> e = ValueError"
proof (induction fmt a used rule: py_format.induct)
  case (1 a used)
  then show ?case by (simp split: if_splits)
next
  case (2 c a used)
  then show ?case by (simp split: if_splits)
next
  case (3 c d fmt a used)
  then show ?case
    by (auto simp: andThen_def split: if_splits sum.splits)
qed

lemma rfft2_exception: "rfft2 a = Inl e \<Longrightarrow> e = ValueError"
  by (simp add: rfft2_def split: if_splits)

lemma w_to_wh_exception: "w_to_wh s = Inl e \<Longrightarrow> e = ValueError"
  by (auto simp: w_to_wh_def andThen_def split: sum.splits dest: rfft2_exception)

lemma py_format_no_conversion:
  "CHR ''%'' \<notin> set fmt \<Longrightarrow> py_format fmt a False = Inl TypeError"
  by (induction fmt a False rule: py_format.induct) auto

lemma unknown_field_format_fails: "py_format unknown_field_format n False = Inl TypeError"
  by (rule py_format_no_conversion) (simp add: unknown_field_format_def)

text \<open>
  Claim C9, as the code has it. For a string outside the six recognised names,
  \<^verbatim>\<open>init_field\<close> assigns no field: it builds the argument of its diagnostic \<^verbatim>\<open>print\<close>
  and then transforms the vorticity the object already held. Whatever the call does, it
  never reports \<open>UnsupportedFieldKind\<close>.
\<close>

theorem unknown_field_kind:
  assumes "n \<notin> {''TG'', ''Taylor-Green'', ''SL'', ''Shear Layer'', ''McWilliams'', ''MW84''}"
  shows "init_field (Name n) t kappa delta sigma g1 g2 s
       = andThen (py_format unknown_field_format n False) (\<lambda>msg. w_to_wh s)
     \<and> init_field (Name n) t kappa delta sigma g1 g2 s \<noteq> Inl UnsupportedFieldKind"
proof -
  have eq: "init_field (Name n) t kappa delta sigma g1 g2 s
       = andThen (py_format unknown_field_format n False) (\<lambda>msg. w_to_wh s)"
    using assms by (simp add: init_field_def choose_field_def andThen_def split: sum.splits)
  have "andThen (py_format unknown_field_format n False) (\<lambda>msg. w_to_wh s)
      \<noteq> Inl UnsupportedFieldKind"
    by (auto simp: andThen_def split: sum.splits
        dest: py_format_exception w_to_wh_exception)
  with eq show ?thesis by simp
qed

theorem unknown_field_kind_witness:
  "''Kolmogorov'' \<notin> {''TG'', ''Taylor-Green'', ''SL'', ''Shear Layer'', ''McWilliams'', ''MW84''}
   \<and> init_field (Name ''Kolmogorov'') default_t default_kappa default_delta default_sigma
     (\<lambda>i j. 0) (\<lambda>i j. 0) (projr (Fluid 4 4 1 default_dt default_pad (\<lambda>a i j. 0)))
   \<noteq> Inl UnsupportedFieldKind"
proof -
  have n: "''Kolmogorov''
      \<notin> {''TG'', ''Taylor-Green'', ''SL'', ''Shear Layer'', ''McWilliams'', ''MW84''}"
    by simp
  from n unknown_field_kind[OF n, THEN conjunct2] show ?thesis by (rule conjI)
qed

text \<open>The claim as the specification states it fails at the name \<^verbatim>\<open>"Kolmogorov"\<close>: the
  call ends in a \<^verbatim>\<open>TypeError\<close>, raised while the diagnostic is formatted.\<close>

theorem unknown_field_kind_counterexample:
  "init_field (Name ''Kolmogorov'') default_t default_kappa default_delta default_sigma
     (\<lambda>i j. 0) (\<lambda>i j. 0) (projr (Fluid 4 4 1 default_dt default_pad (\<lambda>a i j. 0)))
   = Inl TypeError
   \<and> init_field (Name ''Kolmogorov'') default_t default_kappa default_delta default_sigma
     (\<lambda>i j. 0) (\<lambda>i j. 0) (projr (Fluid 4 4 1 default_dt default_pad (\<lambda>a i j. 0)))
   \<noteq> Inl UnsupportedFieldKind"
  by (simp add: init_field_def choose_field_def unknown_field_format_fails)

subsection \<open>Wavenumbers\<close>

lemma length_wavenumbers: "0 < n \<Longrightarrow> length (wavenumbers n) = n"
  by (simp add: wavenumbers_def)

lemma nth_wavenumbers:
  assumes "i < n"
  shows "wavenumbers n ! i = (if i \<le> (n - 1) div 2 then real i else real i - real n)"
proof (cases "i \<le> (n - 1) div 2")
  case True
  then show ?thesis by (simp add: wavenumbers_def nth_append)
next
  case False
  let ?h = "(n - 1) div 2 + 1"
  have h: "?h + n div 2 = n" using assms by arith
  have i: "i - ?h < n div 2" using assms False h by arith
  have "wavenumbers n ! i = real_of_int ([- int (n div 2)..-1] ! (i - ?h))"
    using False i by (simp add: wavenumbers_def nth_append)
  also have "[- int (n div 2)..-1] ! (i - ?h) = - int (n div 2) + int (i - ?h)"
    using i by (subst nth_upto) simp_all
  also have "\<dots> = int i - int n" using False h by simp
  finally show ?thesis using False by simp
qed

lemma wavenumbers_zero_iff:
  assumes "i < n"
  shows "wavenumbers n ! i = 0 \<longleftrightarrow> i = 0"
  using assms by (simp add: nth_wavenumbers)

lemma wavenumbers_nonempty [simp]: "wavenumbers n \<noteq> []"
  by (simp add: wavenumbers_def)

subsection \<open>The squared-wavenumber array\<close>

lemma k2_array_eq:
  assumes "ky s \<noteq> []"
  shows "k2_array s = Inr (map (\<lambda>b. map (\<lambda>a. a ^ 2 + b ^ 2) (take (nk s) (kx s))) (ky s))"
  unfolding k2_array_def by (simp add: elementwise_row_col[OF assms] o_def)

lemma k2_array_grid: "grid s' = grid s \<Longrightarrow> k2_array s' = k2_array s"
  by (simp add: grid_def k2_array_def)

lemma k2_array_rows:
  assumes "k2_array s = Inr k" "ky s \<noteq> []"
  shows "length k = length (ky s)"
    and "i < length k \<Longrightarrow> length (k ! i) = min (nk s) (length (kx s))"
    and "i < length k \<Longrightarrow> j < length (k ! i) \<Longrightarrow> k ! i ! j = (kx s ! j) ^ 2 + (ky s ! i) ^ 2"
  using assms by (auto simp: k2_array_eq)

subsection \<open>Writing through a mask\<close>

lemma length_put1 [simp]: "length (put1 m bs cs) = length bs"
  by (induction m bs cs rule: put1.induct) simp_all

lemma map_length_put_rows [simp]: "map length (put_rows m p cs) = map length p"
  by (induction m p cs rule: put_rows.induct) simp_all

lemma put_rows_first:
  assumes "m \<noteq> []" "m ! 0 \<noteq> []" "\<not> m ! 0 ! 0" "p \<noteq> []" "p ! 0 \<noteq> []"
  shows "put_rows m p cs ! 0 ! 0 = p ! 0 ! 0"
proof -
  from assms(1) obtain mr ms where m: "m = mr # ms" by (cases m) auto
  from assms(4) obtain pr ps where p: "p = pr # ps" by (cases p) auto
  from assms(2,3) m obtain mr' where mr: "mr = False # mr'" by (cases mr) auto
  from assms(5) p obtain e pr' where pr: "pr = e # pr'" by (cases pr) auto
  show ?thesis by (simp add: m p mr pr)
qed

lemma mask_set_result:
  assumes "mask_set m p cs = Inr q"
  shows "same_shape m p" "\<exists>ds. q = put_rows m p ds"
  using assms by (auto simp: mask_set_def split: if_splits)

lemma map2_same_source: "map2 h (map f es) (map g es) = map (\<lambda>e. h (f e) (g e)) es"
  by (induction es) simp_all

lemma mask_fill_maps:
  "mask_fill (map (map P) a) (map (map g) a) c = Inr (map (map (\<lambda>e. if P e then c else g e)) a)"
  by (simp add: mask_fill_def same_shape_def map2_same_source o_def)

subsection \<open>The filter array\<close>

lemma init_filter_result:
  assumes "kx s \<noteq> []" "k2 s = Some k"
  shows "init_filter s = Inr (s\<lparr>fltr := Some (filter_of s k)\<rparr>)"
  using assms
  by (simp add: init_filter_def np_max_def Let_def mask_fill_maps filter_of_def o_def)

subsection \<open>Facts of every reachable state\<close>

lemma filter_of_cong:
  "kx s' = kx s \<Longrightarrow> filterfac s' = filterfac s \<Longrightarrow> filter_of s' k = filter_of s k"
  by (simp add: filter_of_def)

lemma solver_inv_frame:
  assumes "solver_inv s" "grid s' = grid s" "filterfac s' = filterfac s" "k2 s' = k2 s"
    "fk s' = fk s" "psih s' = psih s" "fltr s' = fltr s"
  shows "solver_inv s'"
proof -
  from assms(2) have g: "nx s' = nx s" "nk s' = nk s" "kx s' = kx s"
    by (simp_all add: grid_def)
  have f: "filter_of s' = filter_of s"
    by (rule ext) (rule filter_of_cong[OF g(3) assms(3)])
  show ?thesis
    using assms(1) unfolding solver_inv_def
    by (simp add: g f assms(3-7) k2_array_grid[OF assms(2)])
qed

lemma solver_inv_Fluid: "Fluid n m re d p mem = Inr s \<Longrightarrow> solver_inv s"
  by (auto simp: Fluid_def solver_inv_def split: if_splits)

lemma k2_first_entry:
  assumes "k2_array s = Inr k" "kx s = wavenumbers (nx s)" "ky s = wavenumbers (ny s)"
    "0 < nx s" "0 < ny s" "0 < nk s"
  shows "k \<noteq> []" "k ! 0 \<noteq> []" "k ! 0 ! 0 = 0"
proof -
  have ky: "ky s \<noteq> []" by (simp add: assms(3))
  have len: "length k = ny s"
    using k2_array_rows(1)[OF assms(1) ky] by (simp add: assms(3,5) length_wavenumbers)
  then show k: "k \<noteq> []" using assms(5) by auto
  have l0: "length (k ! 0) = min (nk s) (nx s)"
    using k2_array_rows(2)[OF assms(1) ky, of 0] len assms(4,5)
    by (simp add: assms(2) length_wavenumbers)
  then show "k ! 0 \<noteq> []" using assms(4,6) by auto
  have "k ! 0 ! 0 = (kx s ! 0) ^ 2 + (ky s ! 0) ^ 2"
    using k2_array_rows(3)[OF assms(1) ky, of 0 0] len l0 assms(4,5,6) by simp
  also have "\<dots> = 0"
    using assms(4,5) by (simp add: assms(2,3) nth_wavenumbers)
  finally show "k ! 0 ! 0 = 0" .
qed

lemma solver_inv_get_psih:
  assumes "solver_inv s" "get_psih s = Inr s'"
    and g: "kx s = wavenumbers (nx s)" "ky s = wavenumbers (ny s)" "0 < nx s" "0 < ny s"
      "0 < nk s"
  shows "solver_inv s'"
proof -
  from assms(2) obtain h m k p q where st: "wh s = Some h" "fk s = Some m" "k2 s = Some k"
    "psih s = Some p" "mask_set m p q = Inr (the (psih s'))" "s' = s\<lparr>psih := psih s'\<rparr>"
    "psih s' \<noteq> None"
    by (auto simp: get_psih_def andThen_eq_Inr)
  from assms(1) st(2,3,4) have inv: "k2_array s = Inr k" "m = nonzero k"
    "map length p = replicate (nx s) (nk s)" "p ! 0 ! 0 = 0"
    by (auto simp: solver_inv_def)
  from mask_set_result[OF st(5)] obtain ds where sh: "same_shape m p"
    and q: "the (psih s') = put_rows m p ds" by blast
  have p: "p \<noteq> []" "p ! 0 \<noteq> []"
  proof -
    from inv(3) have "length p = nx s"
      by (metis length_map length_replicate)
    with g(3) show "p \<noteq> []" by auto
    then have "length (p ! 0) = nk s"
      using inv(3) by (metis \<open>length p = nx s\<close> g(3) nth_map nth_replicate)
    with g(5) show "p ! 0 \<noteq> []" by auto
  qed
  have m0: "m \<noteq> []" "m ! 0 \<noteq> []" "\<not> m ! 0 ! 0"
    using k2_first_entry[OF inv(1) g] by (simp_all add: inv(2) nonzero_def hd_conv_nth nth_map)
  have "put_rows m p ds ! 0 ! 0 = 0"
    using put_rows_first[OF m0 p] inv(4) by simp
  moreover have "map length (put_rows m p ds) = replicate (nx s) (nk s)"
    by (simp add: inv(3))
  ultimately have new: "map length (the (psih s')) = replicate (nx s) (nk s)"
    "the (psih s') ! 0 ! 0 = 0"
    by (simp_all add: q)
  show ?thesis
    unfolding solver_inv_def
  proof (intro conjI allI impI)
    show "filterfac s' = 236 / 10"
      using assms(1) by (subst st(6)) (simp add: solver_inv_def)
  next
    fix k' assume "k2 s' = Some k'"
    then have "k2 s = Some k'" by (subst (asm) st(6)) simp
    with assms(1) have "k2_array s = Inr k'" "fk s = Some (nonzero k')"
      by (auto simp: solver_inv_def)
    moreover have "k2_array s' = k2_array s" "fk s' = fk s"
      by (subst st(6), simp add: k2_array_def)+
    ultimately show "k2_array s' = Inr k'" "fk s' = Some (nonzero k')" by simp_all
  next
    fix p' assume p': "psih s' = Some p'"
    have "k2 s' = k2 s" "nx s' = nx s" "nk s' = nk s"
      by (subst st(6), simp)+
    with new p' st(3)
    show "k2 s' \<noteq> None" "map length p' = replicate (nx s') (nk s')" "p' ! 0 ! 0 = 0"
      by simp_all
  next
    fix f assume "fltr s' = Some f"
    then have "fltr s = Some f" by (subst (asm) st(6)) simp
    with assms(1) obtain k' where "k2 s = Some k'" "f = filter_of s k'"
      by (auto simp: solver_inv_def)
    moreover have "k2 s' = k2 s" "filter_of s' = filter_of s"
      by (subst st(6), simp add: filter_of_def fun_eq_iff)+
    ultimately show "\<exists>k. k2 s' = Some k \<and> f = filter_of s' k" by simp
  qed
qed

lemma reachable_grid_ok: "reachable s \<Longrightarrow> grid_ok s"
  using reachable_grid by (simp add: grid_ok_def)

lemma grid_ok_facts:
  assumes "grid_ok s"
  shows "kx s = wavenumbers (nx s)" "ky s = wavenumbers (ny s)" "0 < nx s" "0 < ny s"
    "0 < nk s" "nk s = ny s div 2 + 1" "kx s \<noteq> []" "ky s \<noteq> []"
    "length (kx s) = nx s" "length (ky s) = ny s"
  using assms by (auto simp: grid_ok_def grid_def grid_of_def length_wavenumbers)

lemma grid_ok_cong: "grid s' = grid s \<Longrightarrow> grid_ok s \<Longrightarrow> grid_ok s'"
  unfolding grid_ok_def by (rule grid_ok_transfer)

lemma solver_inv_rk_stage:
  assumes "solver_inv s" "grid_ok s" "rk_stage k s = Inr s'"
  shows "solver_inv s'"
proof -
  from assms(3) obtain s1 s2 s3 h where st: "get_psih s = Inr s1" "add_convection s1 = Inr s2"
    "add_diffusion s2 = Inr s3" "s' = s3\<lparr>wh := Some h\<rparr>"
    by (rule rk_stage_steps)
  note g = grid_ok_facts[OF assms(2)]
  have 1: "solver_inv s1"
    using assms(1) st(1) g(1-5) by (rule solver_inv_get_psih)
  from st(2) obtain b where b: "s2 = s1\<lparr>dwhdt := Some b\<rparr>"
    using frame_add_convection by blast
  from st(3) obtain c where c: "s3 = s2\<lparr>dwhdt := Some c\<rparr>"
    using frame_add_diffusion by blast
  have e: "s' = s1\<lparr>dwhdt := Some c, wh := Some h\<rparr>"
    by (simp add: st(4) b c)
  show ?thesis
    by (rule solver_inv_frame[OF 1]) (simp_all add: e grid_def)
qed

lemma solver_inv_rk_stages:
  "solver_inv s \<Longrightarrow> grid_ok s \<Longrightarrow> rk_stages k s = Inr s' \<Longrightarrow> solver_inv s'"
proof (induction k arbitrary: s)
  case 0
  then show ?case by simp
next
  case (Suc k)
  from Suc.prems(3) obtain s1 where s1: "rk_stage (Suc k) s = Inr s1" "rk_stages k s1 = Inr s'"
    by (auto simp: andThen_eq_Inr)
  have "solver_inv s1" using Suc.prems(1,2) s1(1) by (rule solver_inv_rk_stage)
  moreover have "grid_ok s1" using grid_rk_stage[OF s1(1)] Suc.prems(2) by (rule grid_ok_cong)
  ultimately show ?case using s1(2) by (rule Suc.IH)
qed

lemma solver_inv_update:
  assumes "solver_inv s" "grid_ok s" "update n s = Inr s'"
  shows "solver_inv s'"
proof -
  from assms(3) obtain h s1 where st: "wh s = Some h" "rk_stages (nat n) (s\<lparr>w0 := h\<rparr>) = Inr s1"
    "cfl_limit (s1\<lparr>time := time s1 + dt s1, it := it s1 + 1\<rparr>) = Inr s'"
    by (auto simp: update_def andThen_eq_Inr)
  have "solver_inv (s\<lparr>w0 := h\<rparr>)"
    using assms(1) by (rule solver_inv_frame) (simp_all add: grid_def)
  moreover have "grid_ok (s\<lparr>w0 := h\<rparr>)"
    using _ assms(2) by (rule grid_ok_cong) (simp add: grid_def)
  ultimately have 1: "solver_inv s1" using st(2) by (rule solver_inv_rk_stages)
  from frame_cfl_limit[OF st(3)] obtain a b c where
    e: "s' = s1\<lparr>time := time s1 + dt s1, it := it s1 + 1, u := a, v := b, dt := c\<rparr>"
    by auto
  show ?thesis
    by (rule solver_inv_frame[OF 1]) (simp_all add: e grid_def)
qed

lemma solver_inv_init_filter:
  assumes "solver_inv s" "grid_ok s" "init_filter s = Inr s'"
  shows "solver_inv s'"
proof -
  from assms(3) obtain k where k: "k2 s = Some k"
    by (auto simp: init_filter_def andThen_eq_Inr)
  from init_filter_result[OF grid_ok_facts(7)[OF assms(2)] k] assms(3)
  have s': "s' = s\<lparr>fltr := Some (filter_of s k)\<rparr>" by simp
  show ?thesis
    using assms(1) k unfolding solver_inv_def s'
    by (simp add: k2_array_def filter_of_def)
qed

lemma solver_inv_ensure_k2:
  assumes "solver_inv s" "ensure_k2 s = Inr s'"
  shows "solver_inv s' \<and> k2 s' \<noteq> None \<and> grid s' = grid s"
proof -
  from ensure_k2_cases[OF assms(2)] show ?thesis
  proof
    assume "s' = s \<and> k2 s \<noteq> None"
    with assms(1) show ?thesis by simp
  next
    assume "\<exists>k. k2 s = None \<and> k2_array s = Inr k
       \<and> s' = s\<lparr>k2 := Some k, fk := Some (nonzero k)\<rparr>"
    then obtain k where k: "k2 s = None" "k2_array s = Inr k"
      "s' = s\<lparr>k2 := Some k, fk := Some (nonzero k)\<rparr>" by blast
    from assms(1) k(1) have "psih s = None" "fltr s = None" "filterfac s = 236 / 10"
      by (auto simp: solver_inv_def)
    with k show ?thesis
      by (simp add: solver_inv_def k2_array_def grid_def)
  qed
qed

lemma zeros_first_entry:
  "0 < r \<Longrightarrow> 0 < c \<Longrightarrow> (zeros r c :: complex list list) ! 0 ! 0 = 0"
  by (simp add: zeros_def)

lemma map_length_zeros [simp]: "map length (zeros r c) = replicate r c"
  by (simp add: zeros_def)

lemma solver_inv_init_solver:
  assumes "solver_inv s" "grid_ok s" "init_solver s = Inr s'"
  shows "solver_inv s'"
proof -
  from assms(3) obtain s1 p where st: "ensure_k2 s = Inr s1"
    "ensure_fltr ((solver_arrays s1)\<lparr>padder := Some p,
        w0 := map (map complex_of_real) (w s1)\<rparr>) = Inr s'"
    by (rule init_solver_steps)
  let ?s3 = "(solver_arrays s1)\<lparr>padder := Some p, w0 := map (map complex_of_real) (w s1)\<rparr>"
  from solver_inv_ensure_k2[OF assms(1) st(1)]
  have 1: "solver_inv s1" "k2 s1 \<noteq> None" "grid s1 = grid s" by simp_all
  have g1: "grid_ok s1" using 1(3) assms(2) by (rule grid_ok_cong)
  note f = grid_ok_facts[OF g1]
  have 3: "solver_inv ?s3"
    using 1(1,2) f(3,5)
    by (auto simp: solver_inv_def solver_arrays_def k2_array_def filter_of_def
        zeros_first_entry)
  have g3: "grid_ok ?s3"
    using _ g1 by (rule grid_ok_cong) (simp add: grid_def solver_arrays_def)
  from ensure_fltr_cases[OF st(2)] show ?thesis
    using 3 g3 solver_inv_init_filter by blast
qed

lemma solver_inv_McWilliams1984:
  assumes "solver_inv s" "McWilliams1984 g1 g2 s = Inr s'"
  shows "solver_inv s'"
proof -
  from frame_McWilliams1984[OF assms(2)] obtain k a where k: "k2_array s = Inr k"
    "s' = s\<lparr>k2 := Some k, fk := Some (nonzero k), w := a\<rparr>" by blast
  have same: "\<And>k'. k2 s = Some k' \<Longrightarrow> k' = k"
    using assms(1) k(1) by (auto simp: solver_inv_def)
  show ?thesis
    using assms(1) same unfolding solver_inv_def k(2)
    by (auto simp: k2_array_def filter_of_def k(1)[unfolded k2_array_def])
qed

lemma solver_inv_init_field:
  assumes "solver_inv s" "init_field f t kappa delta sigma g1 g2 s = Inr s'"
  shows "solver_inv s'"
proof -
  from assms(2) obtain s1 where br: "choose_field f t kappa delta sigma g1 g2 s = Inr s1"
    and tr: "w_to_wh s1 = Inr s'"
    by (rule init_field_steps)
  from choose_field_cases[OF br] have 1: "solver_inv s1"
  proof (elim disjE exE)
    fix a assume e: "s1 = s\<lparr>w := a\<rparr>"
    show ?thesis by (rule solver_inv_frame[OF assms(1)]) (simp_all add: e grid_def)
  next
    assume "s1 = s" then show ?thesis using assms(1) by simp
  next
    assume "McWilliams1984 g1 g2 s = Inr s1"
    with assms(1) show ?thesis by (rule solver_inv_McWilliams1984)
  qed
  from frame_w_to_wh[OF tr] obtain a where e: "s' = s1\<lparr>wh := Some a\<rparr>" by blast
  show ?thesis by (rule solver_inv_frame[OF 1]) (simp_all add: e grid_def)
qed

lemma reachable_solver_inv: "reachable s \<Longrightarrow> solver_inv s"
proof (induction rule: reachable.induct)
  case (construct n m re d p mem s)
  then show ?case by (rule solver_inv_Fluid)
next
  case (call_init_solver s s')
  then show ?case using solver_inv_init_solver reachable_grid_ok by blast
next
  case (call_init_field s f t kappa delta sigma g1 g2 s')
  then show ?case using solver_inv_init_field by blast
next
  case (call_McWilliams1984 s g1 g2 s')
  then show ?case using solver_inv_McWilliams1984 by blast
next
  case (call_init_filter s s')
  then show ?case using solver_inv_init_filter reachable_grid_ok by blast
next
  case (call_w_to_wh s s')
  from frame_w_to_wh[OF call_w_to_wh(2)] obtain a
    where e: "s' = s\<lparr>wh := Some a\<rparr>" by blast
  show ?case
    by (rule solver_inv_frame[OF call_w_to_wh(3)]) (simp_all add: e grid_def)
next
  case (call_wh_to_w s s')
  from frame_wh_to_w[OF call_wh_to_w(2)] obtain a
    where e: "s' = s\<lparr>w := a\<rparr>" by blast
  show ?case
    by (rule solver_inv_frame[OF call_wh_to_w(3)]) (simp_all add: e grid_def)
next
  case (call_get_u s s')
  from frame_get_u[OF call_get_u(2)] obtain a
    where e: "s' = s\<lparr>u := a\<rparr>" by blast
  show ?case
    by (rule solver_inv_frame[OF call_get_u(3)]) (simp_all add: e grid_def)
next
  case (call_get_v s s')
  from frame_get_v[OF call_get_v(2)] obtain a
    where e: "s' = s\<lparr>v := a\<rparr>" by blast
  show ?case
    by (rule solver_inv_frame[OF call_get_v(3)]) (simp_all add: e grid_def)
next
  case (call_get_psih s s')
  note g = grid_ok_facts[OF reachable_grid_ok[OF call_get_psih(1)]]
  show ?case using call_get_psih(3,2) g(1-5) by (rule solver_inv_get_psih)
next
  case (call_add_convection s s')
  from frame_add_convection[OF call_add_convection(2)] obtain a
    where e: "s' = s\<lparr>dwhdt := Some a\<rparr>" by blast
  show ?case
    by (rule solver_inv_frame[OF call_add_convection(3)]) (simp_all add: e grid_def)
next
  case (call_add_diffusion s s')
  from frame_add_diffusion[OF call_add_diffusion(2)] obtain a
    where e: "s' = s\<lparr>dwhdt := Some a\<rparr>" by blast
  show ?case
    by (rule solver_inv_frame[OF call_add_diffusion(3)]) (simp_all add: e grid_def)
next
  case (call_cfl_limit s s')
  from frame_cfl_limit[OF call_cfl_limit(2)] obtain a b c
    where e: "s' = s\<lparr>u := a, v := b, dt := c\<rparr>" by blast
  show ?case
    by (rule solver_inv_frame[OF call_cfl_limit(3)]) (simp_all add: e grid_def)
next
  case (call_update s n s')
  then show ?case using solver_inv_update reachable_grid_ok by blast
next
  case (store_wh s h)
  show ?case by (rule solver_inv_frame[OF store_wh(2)]) (simp_all add: grid_def)
qed

subsection \<open>What \<^verbatim>\<open>init_solver\<close> returns\<close>

lemma make_padder_solver_arrays: "make_padder (solver_arrays s) = make_padder s"
  by (simp add: make_padder_def solver_arrays_def)

lemma make_padder_succeeds:
  assumes "0 \<le> py_int (pad s * real (nx s))"
  shows "\<exists>p. make_padder s = Inr p \<and> length p = nat (py_int (pad s * real (nx s)))"
  using assms by (simp add: make_padder_def np_ones_def Let_def)

lemma init_solver_eq:
  assumes "grid_ok s" "solver_inv s" "make_padder s = Inr p"
  shows "\<exists>k. k2_array s = Inr k \<and>
    init_solver s = Inr ((solver_arrays s)\<lparr>k2 := Some k, fk := Some (nonzero k),
      padder := Some p, w0 := map (map complex_of_real) (w s),
      fltr := Some (filter_of s k)\<rparr>)"
proof -
  note g = grid_ok_facts[OF assms(1)]
  from k2_array_eq[OF g(8)] obtain k where k: "k2_array s = Inr k" by blast
  define s1 where "s1 = s\<lparr>k2 := Some k, fk := Some (nonzero k)\<rparr>"
  have e1: "ensure_k2 s = Inr s1"
  proof (cases "k2 s")
    case None
    then show ?thesis by (simp add: ensure_k2_def k s1_def)
  next
    case (Some k')
    with assms(2) k have "k' = k" "fk s = Some (nonzero k)"
      by (auto simp: solver_inv_def)
    with Some show ?thesis by (simp add: ensure_k2_def s1_def)
  qed
  have p1: "make_padder (solver_arrays s1) = Inr p"
    using assms(3) by (simp add: make_padder_solver_arrays) (simp add: make_padder_def s1_def)
  define s3 where "s3 = (solver_arrays s1)\<lparr>padder := Some p,
      w0 := map (map complex_of_real) (w s1)\<rparr>"
  have e3: "ensure_fltr s3 = Inr (s3\<lparr>fltr := Some (filter_of s k)\<rparr>)"
  proof (cases "fltr s")
    case None
    then have "fltr s3 = None" by (simp add: s3_def solver_arrays_def s1_def)
    moreover have "kx s3 \<noteq> []" "k2 s3 = Some k"
      using g(7) by (simp_all add: s3_def solver_arrays_def s1_def)
    moreover have "filter_of s3 k = filter_of s k"
      by (simp add: filter_of_def s3_def solver_arrays_def s1_def)
    ultimately show ?thesis
      using init_filter_result[of s3 k] by (simp add: ensure_fltr_def)
  next
    case (Some f)
    with assms(2) obtain k' where "k2 s = Some k'" "f = filter_of s k'"
      by (auto simp: solver_inv_def)
    moreover with assms(2) k have "k' = k" by (auto simp: solver_inv_def)
    ultimately have "fltr s3 = Some (filter_of s k)"
      using Some by (simp add: s3_def solver_arrays_def s1_def)
    then have "s3\<lparr>fltr := Some (filter_of s k)\<rparr> = s3" by simp
    with \<open>fltr s3 = Some (filter_of s k)\<close> show ?thesis
      by (simp add: ensure_fltr_def)
  qed
  have "init_solver s = Inr (s3\<lparr>fltr := Some (filter_of s k)\<rparr>)"
    using e3 by (simp add: init_solver_def e1 p1 s3_def)
  moreover have "s3\<lparr>fltr := Some (filter_of s k)\<rparr> =
    (solver_arrays s)\<lparr>k2 := Some k, fk := Some (nonzero k),
      padder := Some p, w0 := map (map complex_of_real) (w s),
      fltr := Some (filter_of s k)\<rparr>"
    by (simp add: s3_def s1_def solver_arrays_def)
  ultimately show ?thesis using k by simp
qed

subsection \<open>The spectral filter\<close>

lemma filter_entry_bounds:
  assumes "0 \<le> ff"
  shows "0 \<le> (if r \<le> c then 1 else exp (- ff * (r - c) ^ 4))"
    and "(if r \<le> c then 1 else exp (- ff * (r - c) ^ 4)) \<le> (1::real)"
proof -
  have "0 \<le> ff * (r - c) ^ 4" using assms by simp
  then have "exp (- ff * (r - c) ^ 4) \<le> 1" by simp
  then show "(if r \<le> c then 1 else exp (- ff * (r - c) ^ 4)) \<le> (1::real)" by simp
  show "0 \<le> (if r \<le> c then 1 else exp (- ff * (r - c) ^ 4))" by simp
qed

lemma filter_entry_mono:
  assumes "0 \<le> ff" "c < r" "r \<le> r'"
  shows "(if r' \<le> c then 1 else exp (- ff * (r' - c) ^ 4))
       \<le> (if r \<le> c then 1 else exp (- ff * (r - c) ^ 4 :: real))"
proof -
  have "(r - c) ^ 4 \<le> (r' - c) ^ 4"
    using assms(2,3) by (intro power_mono) simp_all
  then have "ff * (r - c) ^ 4 \<le> ff * (r' - c) ^ 4"
    using assms(1) by (rule mult_left_mono)
  with assms(2,3) show ?thesis by simp
qed

lemma filter_of_nth:
  assumes "i < length k" "j < length (k ! i)"
  shows "filter_of s k ! i ! j =
    (if sqrt (k ! i ! j) \<le> 65 / 100 * Max (set (kx s)) then 1
     else exp (- filterfac s * (sqrt (k ! i ! j) - 65 / 100 * Max (set (kx s))) ^ 4))"
  using assms by (simp add: filter_of_def)

lemma same_shape_filter_of: "same_shape (filter_of s k) k"
  by (simp add: same_shape_def filter_of_def)

subsection \<open>The example objects\<close>

lemma example_fluid_built:
  "Fluid 4 4 1 default_dt default_pad (\<lambda>a i j. 0) = Inr example_fluid"
  by (simp add: example_fluid_def Fluid_def)

lemma reachable_example_fluid: "reachable example_fluid"
  using example_fluid_built by (rule construct)

lemma example_fluid_fields:
  "nx example_fluid = 4" "ny example_fluid = 4" "nk example_fluid = 3"
  "pad example_fluid = 3 / 2" "kx example_fluid = [0, 1, - 2, - 1]"
  "ky example_fluid = [0, 1, - 2, - 1]" "dt example_fluid = 1 / 10000"
  "time example_fluid = 0" "it example_fluid = 0" "Re_number example_fluid = 1"
  "ReI example_fluid = 1" "dx example_fluid = pi / 2" "dy example_fluid = pi / 2"
  by (simp_all add: example_fluid_def Fluid_def default_pad_def default_dt_def
      wavenumbers_def upto.simps linspace_2pi_def)

lemma example_padder:
  "make_padder example_fluid = Inr [True, True, False, False, True, True]"
  by (simp add: make_padder_def example_fluid_fields np_ones_def py_int_def slice_index_def
      upt_conv_Cons)

lemma example_k2_array:
  "k2_array example_fluid = Inr [[0, 1, 4], [1, 2, 5], [4, 5, 8], [1, 2, 5]]"
  by (simp add: k2_array_eq example_fluid_fields)

lemma example_solver_eq:
  "init_solver example_fluid = Inr example_solver"
  "example_solver = (solver_arrays example_fluid)\<lparr>
      k2 := Some [[0, 1, 4], [1, 2, 5], [4, 5, 8], [1, 2, 5]],
      fk := Some (nonzero [[0, 1, 4], [1, 2, 5], [4, 5, 8], [1, 2, 5]]),
      padder := Some [True, True, False, False, True, True],
      w0 := map (map complex_of_real) (w example_fluid),
      fltr := Some (filter_of example_fluid [[0, 1, 4], [1, 2, 5], [4, 5, 8], [1, 2, 5]])\<rparr>"
proof -
  from init_solver_eq[OF reachable_grid_ok[OF reachable_example_fluid]
      reachable_solver_inv[OF reachable_example_fluid] example_padder]
  have e: "init_solver example_fluid = Inr ((solver_arrays example_fluid)\<lparr>
      k2 := Some [[0, 1, 4], [1, 2, 5], [4, 5, 8], [1, 2, 5]],
      fk := Some (nonzero [[0, 1, 4], [1, 2, 5], [4, 5, 8], [1, 2, 5]]),
      padder := Some [True, True, False, False, True, True],
      w0 := map (map complex_of_real) (w example_fluid),
      fltr := Some (filter_of example_fluid [[0, 1, 4], [1, 2, 5], [4, 5, 8], [1, 2, 5]])\<rparr>)"
    by (simp add: example_k2_array)
  then show "example_solver = (solver_arrays example_fluid)\<lparr>
      k2 := Some [[0, 1, 4], [1, 2, 5], [4, 5, 8], [1, 2, 5]],
      fk := Some (nonzero [[0, 1, 4], [1, 2, 5], [4, 5, 8], [1, 2, 5]]),
      padder := Some [True, True, False, False, True, True],
      w0 := map (map complex_of_real) (w example_fluid),
      fltr := Some (filter_of example_fluid [[0, 1, 4], [1, 2, 5], [4, 5, 8], [1, 2, 5]])\<rparr>"
    by (simp add: example_solver_def)
  with e show "init_solver example_fluid = Inr example_solver" by simp
qed

lemma reachable_example_solver: "reachable example_solver"
  using reachable_example_fluid example_solver_eq(1) by (rule call_init_solver)

lemma example_solver_fields:
  "nx example_solver = 4" "ny example_solver = 4" "nk example_solver = 3"
  "pad example_solver = 3 / 2" "kx example_solver = [0, 1, - 2, - 1]"
  "ky example_solver = [0, 1, - 2, - 1]" "dt example_solver = 1 / 10000"
  "time example_solver = 0" "it example_solver = 0" "ReI example_solver = 1"
  "dx example_solver = pi / 2" "dy example_solver = pi / 2"
  "k2 example_solver = Some [[0, 1, 4], [1, 2, 5], [4, 5, 8], [1, 2, 5]]"
  "fk example_solver = Some [[False, True, True], [True, True, True], [True, True, True],
     [True, True, True]]"
  "wh example_solver = Some (zeros 4 3)" "psih example_solver = Some (zeros 4 3)"
  "dwhdt example_solver = Some (zeros 4 3)"
  "mx example_solver = Some 6" "mk example_solver = Some 4"
  "padder example_solver = Some [True, True, False, False, True, True]"
  "fltr example_solver
     = Some (filter_of example_fluid [[0, 1, 4], [1, 2, 5], [4, 5, 8], [1, 2, 5]])"
  by (simp_all add: example_solver_eq(2) solver_arrays_def example_fluid_fields nonzero_def
      py_int_def)

text \<open>
  Claim C8. In every state an object can reach, the cached filter array \<open>fltr\<close>, once
  \<^verbatim>\<open>_init_filter\<close> has built it, has the shape of \<open>k2\<close> and, at every mode \<open>(i, j)\<close> of
  that half-spectrum array: its value lies in \<open>[0, 1]\<close>; it is exactly 1 where the
  wavenumber magnitude \<open>sqrt k2\<close> is at most the cutoff \<open>cphi = 0.65 * max kx\<close>; and of two
  modes above the cutoff, the one with the larger magnitude has the smaller or equal
  filter value.
\<close>

theorem spectral_filter_invariant:
  assumes "reachable s" "fltr s = Some f"
  shows "\<exists>k. k2 s = Some k \<and> same_shape f k
     \<and> (\<forall>i<length k. \<forall>j<length (k ! i).
           0 \<le> f ! i ! j \<and> f ! i ! j \<le> 1
           \<and> (sqrt (k ! i ! j) \<le> 65 / 100 * Max (set (kx s)) \<longrightarrow> f ! i ! j = 1))
     \<and> (\<forall>i<length k. \<forall>j<length (k ! i). \<forall>i'<length k. \<forall>j'<length (k ! i').
           65 / 100 * Max (set (kx s)) < sqrt (k ! i ! j)
           \<and> sqrt (k ! i ! j) \<le> sqrt (k ! i' ! j') \<longrightarrow> f ! i' ! j' \<le> f ! i ! j)"
proof -
  from reachable_solver_inv[OF assms(1)] assms(2) obtain k where
    k: "k2 s = Some k" "f = filter_of s k" and ff: "filterfac s = 236 / 10"
    by (auto simp: solver_inv_def)
  have ff0: "0 \<le> filterfac s" by (simp add: ff)
  have "same_shape f k" by (simp add: k(2) same_shape_filter_of)
  moreover have "\<forall>i<length k. \<forall>j<length (k ! i).
           0 \<le> f ! i ! j \<and> f ! i ! j \<le> 1
           \<and> (sqrt (k ! i ! j) \<le> 65 / 100 * Max (set (kx s)) \<longrightarrow> f ! i ! j = 1)"
  proof (intro allI impI)
    fix i j assume b: "i < length k" "j < length (k ! i)"
    show "0 \<le> f ! i ! j \<and> f ! i ! j \<le> 1
           \<and> (sqrt (k ! i ! j) \<le> 65 / 100 * Max (set (kx s)) \<longrightarrow> f ! i ! j = 1)"
      unfolding k(2) filter_of_nth[OF b]
      using filter_entry_bounds[OF ff0, of "sqrt (k ! i ! j)" "65 / 100 * Max (set (kx s))"]
      by presburger
  qed
  moreover have "\<forall>i<length k. \<forall>j<length (k ! i). \<forall>i'<length k. \<forall>j'<length (k ! i').
           65 / 100 * Max (set (kx s)) < sqrt (k ! i ! j)
           \<and> sqrt (k ! i ! j) \<le> sqrt (k ! i' ! j') \<longrightarrow> f ! i' ! j' \<le> f ! i ! j"
  proof (intro allI impI)
    fix i j i' j'
    assume b: "i < length k" "j < length (k ! i)" "i' < length k" "j' < length (k ! i')"
      and c: "65 / 100 * Max (set (kx s)) < sqrt (k ! i ! j)
           \<and> sqrt (k ! i ! j) \<le> sqrt (k ! i' ! j')"
    from c filter_entry_mono[OF ff0, of "65 / 100 * Max (set (kx s))" "sqrt (k ! i ! j)"
        "sqrt (k ! i' ! j')"]
    show "f ! i' ! j' \<le> f ! i ! j"
      unfolding k(2) filter_of_nth[OF b(1,2)] filter_of_nth[OF b(3,4)] by blast
  qed
  ultimately show ?thesis using k(1) by blast
qed

theorem spectral_filter_invariant_witness:
  "fltr example_solver \<noteq> None
   \<and> 0 \<le> the (fltr example_solver) ! 2 ! 2 \<and> the (fltr example_solver) ! 2 ! 2 \<le> 1
   \<and> the (fltr example_solver) ! 0 ! 0 = 1
   \<and> the (fltr example_solver) ! 2 ! 2 \<le> the (fltr example_solver) ! 1 ! 1"
proof -
  let ?K = "[[0, 1, 4], [1, 2, 5], [4, 5, 8], [1, 2, 5]] :: real list list"
  let ?f = "filter_of example_fluid ?K"
  have mx: "Max (set (kx example_solver)) = 1"
    by (simp add: example_solver_fields)
  from spectral_filter_invariant[OF reachable_example_solver example_solver_fields(21)]
  have a: "\<forall>i<length ?K. \<forall>j<length (?K ! i).
           0 \<le> ?f ! i ! j \<and> ?f ! i ! j \<le> 1
           \<and> (sqrt (?K ! i ! j) \<le> 65 / 100 * Max (set (kx example_solver)) \<longrightarrow> ?f ! i ! j = 1)"
    and b: "\<forall>i<length ?K. \<forall>j<length (?K ! i). \<forall>i'<length ?K. \<forall>j'<length (?K ! i').
           65 / 100 * Max (set (kx example_solver)) < sqrt (?K ! i ! j)
           \<and> sqrt (?K ! i ! j) \<le> sqrt (?K ! i' ! j') \<longrightarrow> ?f ! i' ! j' \<le> ?f ! i ! j"
    by (simp_all add: example_solver_fields(13))
  from a[rule_format, of 2 2] have 1: "0 \<le> ?f ! 2 ! 2" "?f ! 2 ! 2 \<le> 1" by simp_all
  from a[rule_format, of 0 0] have 2: "?f ! 0 ! 0 = 1" by (simp add: mx)
  have "(65 / 100 :: real) < sqrt 2"
    by (rule order_less_le_trans[of _ 1]) simp_all
  with b[rule_format, of 1 1 2 2] have 3: "?f ! 2 ! 2 \<le> ?f ! 1 ! 1" by (simp add: mx)
  from 1 2 3 show ?thesis by (simp add: example_solver_fields(21))
qed

subsection \<open>Reading and writing through the same mask\<close>

lemma length_select1:
  "length m = length as \<Longrightarrow> length (select1 m as) = length (filter id m)"
proof (induction m arbitrary: as)
  case Nil
  then show ?case by (simp add: select1_def)
next
  case (Cons b m)
  then obtain a as' where "as = a # as'" by (cases as) auto
  with Cons show ?case by (simp add: select1_def)
qed

lemma select1_Cons [simp]:
  "select1 (b # m) (a # as) = (if b then a # select1 m as else select1 m as)"
  by (simp add: select1_def)

lemma select1_Nil [simp]: "select1 [] as = []"
  by (simp add: select1_def)

lemma put1_select1:
  assumes "length m = length p" "length h = length p" "length k = length p"
  shows "put1 m p (map2 f (select1 m h) (select1 m k) @ rest)
       = map (\<lambda>(b, e, c, d). if b then f c d else e) (zip m (zip p (zip h k)))
     \<and> drop (length (filter id m)) (map2 f (select1 m h) (select1 m k) @ rest) = rest"
  using assms
proof (induction m arbitrary: p h k)
  case Nil
  then show ?case by simp
next
  case (Cons b m)
  then obtain e p' c h' d k' where "p = e # p'" "h = c # h'" "k = d # k'"
    by (cases p; cases h; cases k) auto
  with Cons show ?case by (cases b) simp_all
qed

lemma map2_append:
  "length as = length bs \<Longrightarrow>
   map2 f (as @ as') (bs @ bs') = map2 f as bs @ map2 f as' bs'"
  by simp

lemma put_rows_select:
  assumes "map length m = map length p" "map length h = map length p"
    "map length k = map length p"
  shows "put_rows m p (map2 f (concat (map2 select1 m h)) (concat (map2 select1 m k)) @ rest)
       = map (\<lambda>(mr, pr, hr, kr). map (\<lambda>(b, e, c, d). if b then f c d else e)
           (zip mr (zip pr (zip hr kr)))) (zip m (zip p (zip h k)))"
  using assms
proof (induction m arbitrary: p h k)
  case Nil
  then show ?case by simp
next
  case (Cons mr m)
  then obtain pr p' hr h' kr k' where c: "p = pr # p'" "h = hr # h'" "k = kr # k'"
    by (cases p; cases h; cases k) auto
  with Cons.prems have l: "length mr = length pr" "length hr = length pr"
    "length kr = length pr"
    and t: "map length m = map length p'" "map length h' = map length p'"
      "map length k' = map length p'"
    by simp_all
  have ls: "length (select1 mr hr) = length (select1 mr kr)"
    using l by (simp add: length_select1)
  let ?tail = "map2 f (concat (map2 select1 m h')) (concat (map2 select1 m k')) @ rest"
  have split: "map2 f (concat (map2 select1 (mr # m) h)) (concat (map2 select1 (mr # m) k)) @ rest
      = map2 f (select1 mr hr) (select1 mr kr) @ ?tail"
    using ls by (simp add: c)
  from put1_select1[OF l, of f ?tail]
  have row: "put1 mr pr (map2 f (select1 mr hr) (select1 mr kr) @ ?tail)
       = map (\<lambda>(b, e, c, d). if b then f c d else e) (zip mr (zip pr (zip hr kr)))"
    and rest: "drop (length (filter id mr)) (map2 f (select1 mr hr) (select1 mr kr) @ ?tail)
       = ?tail"
    by simp_all
  have "put_rows (mr # m) p (map2 f (select1 mr hr) (select1 mr kr) @ ?tail)
      = put1 mr pr (map2 f (select1 mr hr) (select1 mr kr) @ ?tail)
        # put_rows m p' (drop (length (filter id mr))
            (map2 f (select1 mr hr) (select1 mr kr) @ ?tail))"
    unfolding c by (rule put_rows.simps(1))
  also have "\<dots> = map (\<lambda>(b, e, c, d). if b then f c d else e) (zip mr (zip pr (zip hr kr)))
        # put_rows m p' ?tail"
    unfolding row rest by (rule refl)
  also have "put_rows m p' ?tail
      = map (\<lambda>(mr, pr, hr, kr). map (\<lambda>(b, e, c, d). if b then f c d else e)
           (zip mr (zip pr (zip hr kr)))) (zip m (zip p' (zip h' k')))"
    by (rule Cons.IH[OF t])
  finally show ?case
    unfolding split by (simp add: c)
qed

lemma length_concat_select1:
  "map length m = map length h \<Longrightarrow>
   length (concat (map2 select1 m h)) = length (filter id (concat m))"
proof (induction m arbitrary: h)
  case Nil
  then show ?case by simp
next
  case (Cons mr m)
  then obtain hr h' where "h = hr # h'" by (cases h) auto
  with Cons show ?case by (simp add: length_select1 id_def)
qed

lemma merged_nth:
  assumes "map length m = map length p" "map length h = map length p"
    "map length k = map length p" "i < length p" "j < length (p ! i)"
  shows "map (\<lambda>(mr, pr, hr, kr). map (\<lambda>(b, e, c, d). if b then f c d else e)
           (zip mr (zip pr (zip hr kr)))) (zip m (zip p (zip h k))) ! i ! j
       = (if m ! i ! j then f (h ! i ! j) (k ! i ! j) else p ! i ! j)"
proof -
  have len: "length m = length p" "length h = length p" "length k = length p"
    using assms(1-3) by (metis length_map)+
  have rows: "length (m ! i) = length (p ! i)" "length (h ! i) = length (p ! i)"
    "length (k ! i) = length (p ! i)"
    using assms(1-4) len by (metis nth_map)+
  show ?thesis
    using assms(4,5) len rows by simp
qed

subsection \<open>The Poisson inversion\<close>

lemma get_psih_eq:
  assumes "wh s = Some h" "fk s = Some m" "k2 s = Some k" "psih s = Some p"
    "map length m = map length p" "map length h = map length p" "map length k = map length p"
  shows "get_psih s = Inr (s\<lparr>psih := Some
     (map (\<lambda>(mr, pr, hr, kr). map (\<lambda>(b, e, c, d). if b then c / complex_of_real d else e)
           (zip mr (zip pr (zip hr kr)))) (zip m (zip p (zip h k))))\<rparr>)"
proof -
  have c: "length (map2 (\<lambda>a b. a / complex_of_real b) (concat (map2 select1 m h))
      (concat (map2 select1 m k))) = count_true m"
    using assms(5-7) by (simp add: length_concat_select1 count_true_def)
  from put_rows_select[OF assms(5-7), of "\<lambda>a b. a / complex_of_real b" "[]"]
  show ?thesis
    using assms c
    by (simp add: get_psih_def mask_get_def mask_set_def same_shape_def)
qed

lemma mask_get_same_shape: "mask_get m a = Inr b \<Longrightarrow> map length m = map length a"
  by (simp add: mask_get_def same_shape_def split: if_splits)

lemma mask_set_same_shape: "mask_set m a c = Inr b \<Longrightarrow> map length m = map length a"
  by (simp add: mask_set_def same_shape_def split: if_splits)

lemma get_psih_shapes:
  assumes "get_psih s = Inr s'"
  obtains h m k p where "wh s = Some h" "fk s = Some m" "k2 s = Some k" "psih s = Some p"
    "map length m = map length p" "map length m = map length h" "map length m = map length k"
proof -
  from assms obtain h m hs k ks p vs q where st: "wh s = Some h" "fk s = Some m"
    "mask_get m h = Inr hs" "k2 s = Some k" "mask_get m k = Inr ks" "psih s = Some p"
    "mask_set m p vs = Inr q"
    unfolding get_psih_def andThen_eq_Inr attr_eq_Inr by blast
  show ?thesis
    using st(1,2,4,6) mask_set_same_shape[OF st(7)] mask_get_same_shape[OF st(3)]
      mask_get_same_shape[OF st(5)]
    by (rule that)
qed

lemma k2_zero_iff:
  assumes "grid_ok s" "k2_array s = Inr k" "i < length k" "j < length (k ! i)"
  shows "k ! i ! j = 0 \<longleftrightarrow> i = 0 \<and> j = 0"
proof -
  note g = grid_ok_facts[OF assms(1)]
  have i: "i < ny s"
    using k2_array_rows(1)[OF assms(2) g(8)] assms(3) g(10) by simp
  have j: "j < nx s"
    using k2_array_rows(2)[OF assms(2) g(8) assms(3)] assms(4) g(9) by simp
  have "k ! i ! j = (kx s ! j) ^ 2 + (ky s ! i) ^ 2"
    using assms by (intro k2_array_rows(3)[OF assms(2) g(8)])
  also have "\<dots> = 0 \<longleftrightarrow> kx s ! j = 0 \<and> ky s ! i = 0"
    by (rule sum_power2_eq_zero_iff)
  also have "\<dots> \<longleftrightarrow> i = 0 \<and> j = 0"
    using i j by (auto simp: g(1,2) wavenumbers_zero_iff)
  finally show ?thesis .
qed

lemma k2_square_shape:
  assumes "grid_ok s" "k2_array s = Inr k" "nx s = ny s"
  shows "map length k = replicate (nx s) (nk s)"
proof -
  note g = grid_ok_facts[OF assms(1)]
  have "nk s \<le> nx s" using g(3,6) assms(3) by simp
  then have "map length (map (\<lambda>b. map (\<lambda>a. a ^ 2 + b ^ 2) (take (nk s) (kx s))) (ky s))
      = replicate (nx s) (nk s)"
    using assms(3) g(9,10) by (simp add: o_def min_def map_replicate_const)
  with assms(2) show ?thesis
    by (simp add: k2_array_eq[OF g(8)])
qed

lemma same_shape_nonzero: "map length (nonzero k) = map length k"
  by (simp add: nonzero_def)

lemma nonzero_nth:
  "i < length k \<Longrightarrow> j < length (k ! i) \<Longrightarrow> nonzero k ! i ! j \<longleftrightarrow> k ! i ! j \<noteq> 0"
  by (simp add: nonzero_def)

lemma example_state_fields:
  "nx example_state = 4" "ny example_state = 4" "nk example_state = 3"
  "wh example_state = Some example_wh" "psih example_state = Some (zeros 4 3)"
  "k2 example_state = Some [[0, 1, 4], [1, 2, 5], [4, 5, 8], [1, 2, 5]]"
  "dt example_state = 1 / 10000" "time example_state = 0" "it example_state = 0"
  by (simp_all add: example_state_def example_solver_fields)

lemma reachable_example_state: "reachable example_state"
  unfolding example_state_def using reachable_example_solver by (rule store_wh)

text \<open>
  The Poisson inversion where it returns. In every state an object can reach: whenever
  \<^verbatim>\<open>_get_psih\<close> returns, the new \<open>psih\<close> has the shape of \<open>k2\<close> and of \<open>wh\<close>, equals
  \<open>wh / k2\<close> at every mode where \<open>k2\<close> is not zero (so \<open>k2 * psih = wh\<close> there), \<open>k2\<close> is
  zero at the mode \<open>(0, 0)\<close> and nowhere else, and \<open>psih\<close> is exactly zero at that mode. On
  a square grid the call does return, for every spectral vorticity of the shape \<open>(nx, nk)\<close>
  once \<^verbatim>\<open>init_solver\<close> has created \<open>psih\<close>.
\<close>

lemma poisson_inversion:
  assumes "reachable s"
  shows "(\<forall>s'. get_psih s = Inr s' \<longrightarrow>
          (\<exists>h k p. wh s = Some h \<and> k2 s = Some k \<and> psih s' = Some p
             \<and> same_shape h k \<and> same_shape p k
             \<and> (\<forall>i<length k. \<forall>j<length (k ! i).
                   (k ! i ! j \<noteq> 0 \<longrightarrow>
                      p ! i ! j = h ! i ! j / complex_of_real (k ! i ! j)
                      \<and> complex_of_real (k ! i ! j) * p ! i ! j = h ! i ! j)
                   \<and> (k ! i ! j = 0 \<longleftrightarrow> i = 0 \<and> j = 0))
             \<and> p ! 0 ! 0 = 0))
     \<and> (nx s = ny s \<longrightarrow>
          (\<forall>h. wh s = Some h \<and> map length h = replicate (nx s) (nk s) \<and> psih s \<noteq> None
             \<longrightarrow> (\<exists>s'. get_psih s = Inr s')))"
proof (intro conjI allI impI)
  fix s' assume run: "get_psih s = Inr s'"
  note inv = reachable_solver_inv[OF assms]
  note gok = reachable_grid_ok[OF assms]
  from run obtain h m k p where st: "wh s = Some h" "fk s = Some m" "k2 s = Some k"
    "psih s = Some p" "map length m = map length p" "map length m = map length h"
    "map length m = map length k"
    by (rule get_psih_shapes)
  from inv st(2,3) have k: "k2_array s = Inr k" "m = nonzero k"
    by (auto simp: solver_inv_def)
  let ?q = "map (\<lambda>(mr, pr, hr, kr). map (\<lambda>(b, e, c, d). if b then c / complex_of_real d else e)
           (zip mr (zip pr (zip hr kr)))) (zip m (zip p (zip h k)))"
  have sh: "map length m = map length p" "map length h = map length p"
    "map length k = map length p"
    using st(5-7) by simp_all
  from get_psih_eq[OF st(1-4) sh] run have s': "psih s' = Some ?q"
    by auto
  have "reachable s'" using assms run by (rule call_get_psih)
  from reachable_solver_inv[OF this] s' have q0: "?q ! 0 ! 0 = 0"
    and ql: "map length ?q = replicate (nx s') (nk s')"
    by (auto simp: solver_inv_def)
  from inv st(4) have pl: "map length p = replicate (nx s) (nk s)"
    by (auto simp: solver_inv_def)
  have same: "nx s' = nx s" "nk s' = nk s"
    using frame_get_psih[OF run] by auto
  have lenk: "length k = length p" using sh(3) by (metis length_map)
  have entries: "\<forall>i<length k. \<forall>j<length (k ! i).
       (k ! i ! j \<noteq> 0 \<longrightarrow>
          ?q ! i ! j = h ! i ! j / complex_of_real (k ! i ! j)
          \<and> complex_of_real (k ! i ! j) * ?q ! i ! j = h ! i ! j)
       \<and> (k ! i ! j = 0 \<longleftrightarrow> i = 0 \<and> j = 0)"
  proof (intro allI impI)
    fix i j assume b: "i < length k" "j < length (k ! i)"
    have rowl: "length (k ! i) = length (p ! i)"
      using sh(3) b(1) lenk by (metis nth_map)
    have q: "?q ! i ! j = (if m ! i ! j then h ! i ! j / complex_of_real (k ! i ! j)
        else p ! i ! j)"
      using b lenk rowl by (intro merged_nth[OF sh]) simp_all
    have mm: "m ! i ! j \<longleftrightarrow> k ! i ! j \<noteq> 0"
      using b by (simp add: k(2) nonzero_nth)
    show "(k ! i ! j \<noteq> 0 \<longrightarrow>
          ?q ! i ! j = h ! i ! j / complex_of_real (k ! i ! j)
          \<and> complex_of_real (k ! i ! j) * ?q ! i ! j = h ! i ! j)
       \<and> (k ! i ! j = 0 \<longleftrightarrow> i = 0 \<and> j = 0)"
      using k2_zero_iff[OF gok k(1) b] by (simp add: q mm)
  qed
  have "same_shape h k" "same_shape ?q k"
    using sh ql pl same by (simp_all add: same_shape_def)
  with st(1,3) s' entries q0
  show "\<exists>h k p. wh s = Some h \<and> k2 s = Some k \<and> psih s' = Some p
             \<and> same_shape h k \<and> same_shape p k
             \<and> (\<forall>i<length k. \<forall>j<length (k ! i).
                   (k ! i ! j \<noteq> 0 \<longrightarrow>
                      p ! i ! j = h ! i ! j / complex_of_real (k ! i ! j)
                      \<and> complex_of_real (k ! i ! j) * p ! i ! j = h ! i ! j)
                   \<and> (k ! i ! j = 0 \<longleftrightarrow> i = 0 \<and> j = 0))
             \<and> p ! 0 ! 0 = 0"
    by blast
next
  fix h assume sq: "nx s = ny s"
    and h: "wh s = Some h \<and> map length h = replicate (nx s) (nk s) \<and> psih s \<noteq> None"
  note inv = reachable_solver_inv[OF assms]
  note gok = reachable_grid_ok[OF assms]
  from h obtain p where p: "psih s = Some p" by auto
  with inv obtain k where k: "k2 s = Some k" "k2_array s = Inr k" "fk s = Some (nonzero k)"
    and pl: "map length p = replicate (nx s) (nk s)"
    by (auto simp: solver_inv_def)
  have kl: "map length k = replicate (nx s) (nk s)"
    using gok k(2) sq by (rule k2_square_shape)
  have "get_psih s = Inr (s\<lparr>psih := Some
     (map (\<lambda>(mr, pr, hr, kr). map (\<lambda>(b, e, c, d). if b then c / complex_of_real d else e)
           (zip mr (zip pr (zip hr kr)))) (zip (nonzero k) (zip p (zip h k))))\<rparr>)"
    using h k(1,3) p by (intro get_psih_eq) (simp_all add: same_shape_nonzero kl pl)
  then show "\<exists>s'. get_psih s = Inr s'" by blast
qed

lemma poisson_inversion_example:
  "get_psih example_state = Inr (projr (get_psih example_state))
   \<and> the (psih (projr (get_psih example_state))) ! 1 ! 1 = (5 + \<i>) / 2
   \<and> 2 * the (psih (projr (get_psih example_state))) ! 1 ! 1 = 5 + \<i>
   \<and> the (psih (projr (get_psih example_state))) ! 0 ! 0 = 0"
proof -
  note t = poisson_inversion[OF reachable_example_state]
  have "map length example_wh = replicate 4 3"
    by (simp add: example_wh_def eval_nat_numeral)
  then have "\<exists>s'. get_psih example_state = Inr s'"
    using t[THEN conjunct2, rule_format, of example_wh]
    by (simp add: example_state_fields)
  then have run: "get_psih example_state = Inr (projr (get_psih example_state))"
    by auto
  from t[THEN conjunct1, rule_format, OF run] obtain h k p where
    a: "wh example_state = Some h" "k2 example_state = Some k"
      "psih (projr (get_psih example_state)) = Some p"
    and e: "\<forall>i<length k. \<forall>j<length (k ! i).
                   (k ! i ! j \<noteq> 0 \<longrightarrow>
                      p ! i ! j = h ! i ! j / complex_of_real (k ! i ! j)
                      \<and> complex_of_real (k ! i ! j) * p ! i ! j = h ! i ! j)
                   \<and> (k ! i ! j = 0 \<longleftrightarrow> i = 0 \<and> j = 0)"
    and z: "p ! 0 ! 0 = 0"
    by blast
  have hk: "h = example_wh" "k = [[0, 1, 4], [1, 2, 5], [4, 5, 8], [1, 2, 5]]"
    using a(1,2) by (simp_all add: example_state_fields)
  from e[rule_format, of 1 1] have "p ! 1 ! 1 = (5 + \<i>) / 2" "2 * p ! 1 ! 1 = 5 + \<i>"
    by (simp_all add: hk example_wh_def)
  with run z show ?thesis by (simp add: a(3))
qed

subsection \<open>The squared-wavenumber array on square and other grids\<close>

lemma k2_square_grid:
  assumes "reachable s" "nx s = ny s" "k2 s = Some k"
  shows "shape k = (nx s, nk s)"
    and "\<forall>i<nx s. \<forall>j<nk s. k ! i ! j = (kx s ! i) ^ 2 + (ky s ! j) ^ 2"
    and "\<forall>i<nx s. \<forall>j<nk s. k ! i ! j = 0 \<longleftrightarrow> i = 0 \<and> j = 0"
proof -
  note gok = reachable_grid_ok[OF assms(1)]
  note g = grid_ok_facts[OF gok]
  from reachable_solver_inv[OF assms(1)] assms(3) have k: "k2_array s = Inr k"
    by (auto simp: solver_inv_def)
  have kl: "map length k = replicate (nx s) (nk s)"
    using gok k assms(2) by (rule k2_square_shape)
  then have len: "length k = nx s"
    by (metis length_map length_replicate)
  have row: "length (k ! i) = nk s" if "i < nx s" for i
    using kl that len by (metis nth_map nth_replicate)
  from len g(3) obtain r rs where "k = r # rs" by (cases k) auto
  with len row[of 0] g(3) show "shape k = (nx s, nk s)"
    by (simp add: shape_def)
  have same: "kx s = ky s" using g(1,2) assms(2) by simp
  show "\<forall>i<nx s. \<forall>j<nk s. k ! i ! j = (kx s ! i) ^ 2 + (ky s ! j) ^ 2"
    using k2_array_rows(3)[OF k g(8)] len row by (simp add: same add.commute)
  show "\<forall>i<nx s. \<forall>j<nk s. k ! i ! j = 0 \<longleftrightarrow> i = 0 \<and> j = 0"
    using k2_zero_iff[OF gok k] len row by simp
qed

lemma nonsquare_fluid:
  "\<exists>s0. Fluid 4 6 1 default_dt default_pad mem = Inr s0 \<and> nx s0 = 4 \<and> ny s0 = 6 \<and> nk s0 = 4
     \<and> pad s0 = 3 / 2 \<and> kx s0 = [0, 1, - 2, - 1] \<and> ky s0 = [0, 1, 2, - 3, - 2, - 1]"
  by (simp add: Fluid_def default_pad_def wavenumbers_def upto.simps upt_conv_Cons)

text \<open>
  Claim C7 on the grid \<^verbatim>\<open>Fluid(4, 6, 1.)\<close>. The constructor and \<^verbatim>\<open>init_solver\<close> return;
  the array \<open>k2\<close> they build has six rows of four entries, while \<open>(nx, nk) = (4, 4)\<close>; its
  entry \<open>(2, 3)\<close> is \<open>ky[2]^2 + kx[3]^2 = 5\<close>, not \<open>kx[2]^2 + ky[3]^2 = 13\<close>; and
  \<^verbatim>\<open>_get_psih\<close>, which indexes the \<open>(nx, nk)\<close> arrays \<open>wh\<close> and \<open>psih\<close> with the mask of
  \<open>k2\<close>, raises \<^verbatim>\<open>IndexError\<close>.
\<close>

theorem k2_on_nonsquare_grid:
  "\<exists>s0 s1. Fluid 4 6 1 default_dt default_pad mem = Inr s0 \<and> init_solver s0 = Inr s1
     \<and> k2 s1 = Some [[0, 1, 4, 1], [1, 2, 5, 2], [4, 5, 8, 5], [9, 10, 13, 10], [4, 5, 8, 5],
          [1, 2, 5, 2]]
     \<and> shape (the (k2 s1)) = (6, 4) \<and> (nx s1, nk s1) = (4, 4)
     \<and> the (k2 s1) ! 2 ! 3 = 5 \<and> (kx s1 ! 2) ^ 2 + (ky s1 ! 3) ^ 2 = 13
     \<and> get_psih s1 = Inl IndexError"
proof -
  let ?K = "[[0, 1, 4, 1], [1, 2, 5, 2], [4, 5, 8, 5], [9, 10, 13, 10], [4, 5, 8, 5],
          [1, 2, 5, 2]] :: real list list"
  from nonsquare_fluid obtain s0 where s0: "Fluid 4 6 1 default_dt default_pad mem = Inr s0"
    "nx s0 = 4" "ny s0 = 6" "nk s0 = 4" "pad s0 = 3 / 2" "kx s0 = [0, 1, - 2, - 1]"
    "ky s0 = [0, 1, 2, - 3, - 2, - 1]"
    by blast
  have r0: "reachable s0" using s0(1) by (rule construct)
  have p: "make_padder s0 = Inr [True, True, False, False, True, True]"
    by (simp add: make_padder_def s0 np_ones_def py_int_def slice_index_def upt_conv_Cons)
  have k: "k2_array s0 = Inr ?K"
    by (simp add: k2_array_eq s0)
  define s1 where "s1 = (solver_arrays s0)\<lparr>k2 := Some ?K, fk := Some (nonzero ?K),
      padder := Some [True, True, False, False, True, True],
      w0 := map (map complex_of_real) (w s0),
      fltr := Some (filter_of s0 ?K)\<rparr>"
  from init_solver_eq[OF reachable_grid_ok[OF r0] reachable_solver_inv[OF r0] p]
  have run: "init_solver s0 = Inr s1"
    by (simp add: k s1_def)
  have f: "k2 s1 = Some ?K" "nx s1 = 4" "nk s1 = 4" "kx s1 = [0, 1, - 2, - 1]"
    "ky s1 = [0, 1, 2, - 3, - 2, - 1]" "wh s1 = Some (zeros 4 4)" "fk s1 = Some (nonzero ?K)"
    by (simp_all add: s1_def solver_arrays_def s0)
  have ns: "\<not> same_shape (nonzero ?K) (zeros 4 4 :: complex list list)"
  proof
    assume "same_shape (nonzero ?K) (zeros 4 4 :: complex list list)"
    then have "length (map length (nonzero ?K))
        = length (map length (zeros 4 4 :: complex list list))"
      unfolding same_shape_def by (rule arg_cong)
    then show False by (simp add: nonzero_def zeros_def)
  qed
  have "get_psih s1 = Inl IndexError"
    by (simp add: get_psih_def f mask_get_def ns)
  with s0(1) run f show ?thesis
    by (simp add: shape_def)
qed

subsection \<open>The Poisson inversion on a grid that is not square\<close>

lemma nonsquare_solver:
  "\<exists>s0 s1. Fluid 4 6 1 default_dt default_pad (\<lambda>a i j. 0) = Inr s0 \<and> init_solver s0 = Inr s1
     \<and> reachable s1 \<and> nx s1 = 4 \<and> ny s1 = 6 \<and> nk s1 = 4
     \<and> wh s1 = Some (zeros 4 4) \<and> psih s1 = Some (zeros 4 4) \<and> k2 s1 \<noteq> None"
proof -
  let ?K = "[[0, 1, 4, 1], [1, 2, 5, 2], [4, 5, 8, 5], [9, 10, 13, 10], [4, 5, 8, 5],
          [1, 2, 5, 2]] :: real list list"
  from nonsquare_fluid obtain s0 where s0:
    "Fluid 4 6 1 default_dt default_pad (\<lambda>a i j. 0) = Inr s0"
    "nx s0 = 4" "ny s0 = 6" "nk s0 = 4" "pad s0 = 3 / 2" "kx s0 = [0, 1, - 2, - 1]"
    "ky s0 = [0, 1, 2, - 3, - 2, - 1]"
    by blast
  have r0: "reachable s0" using s0(1) by (rule construct)
  have p: "make_padder s0 = Inr [True, True, False, False, True, True]"
    by (simp add: make_padder_def s0 np_ones_def py_int_def slice_index_def upt_conv_Cons)
  have k: "k2_array s0 = Inr ?K"
    by (simp add: k2_array_eq s0)
  define s1 where "s1 = (solver_arrays s0)\<lparr>k2 := Some ?K, fk := Some (nonzero ?K),
      padder := Some [True, True, False, False, True, True],
      w0 := map (map complex_of_real) (w s0),
      fltr := Some (filter_of s0 ?K)\<rparr>"
  from init_solver_eq[OF reachable_grid_ok[OF r0] reachable_solver_inv[OF r0] p]
  have run: "init_solver s0 = Inr s1"
    by (simp add: k s1_def)
  have r1: "reachable s1" using r0 run by (rule call_init_solver)
  have f: "k2 s1 = Some ?K" "nx s1 = 4" "ny s1 = 6" "nk s1 = 4" "wh s1 = Some (zeros 4 4)"
    "psih s1 = Some (zeros 4 4)"
    by (simp_all add: s1_def solver_arrays_def s0)
  from s0(1) run r1 f show ?thesis by simp
qed

text \<open>
  Claim C3 on a grid that is not square. In every state an object can reach with
  \<open>nx \<noteq> ny\<close>, once \<^verbatim>\<open>init_solver\<close> has built \<open>k2\<close>: for every spectral vorticity \<open>wh\<close> of the
  shape \<open>(nx, nk)\<close> that the object holds, \<^verbatim>\<open>_get_psih\<close> produces no \<open>psih\<close>; it raises
  \<^verbatim>\<open>IndexError\<close>, because the mask \<open>fk\<close> has the \<open>ny\<close> rows of \<open>k2\<close> and \<open>wh\<close> has \<open>nx\<close>.
\<close>

theorem poisson_inversion_nonsquare:
  assumes "reachable s" "nx s \<noteq> ny s" "k2 s \<noteq> None" "wh s = Some h"
    "map length h = replicate (nx s) (nk s)"
  shows "get_psih s = Inl IndexError"
proof -
  note g = grid_ok_facts[OF reachable_grid_ok[OF assms(1)]]
  from assms(3) obtain k where k0: "k2 s = Some k" by auto
  with reachable_solver_inv[OF assms(1)] have k: "k2_array s = Inr k" "fk s = Some (nonzero k)"
    by (auto simp: solver_inv_def)
  have lk: "length k = ny s"
    using k2_array_rows(1)[OF k(1) g(8)] g(10) by simp
  have lh: "length h = nx s"
    using assms(5) by (metis length_map length_replicate)
  have ns: "\<not> same_shape (nonzero k) h"
  proof
    assume "same_shape (nonzero k) h"
    then have "length (map length (nonzero k)) = length (map length h)"
      unfolding same_shape_def by (rule arg_cong)
    then show False using lk lh assms(2) by (simp add: nonzero_def)
  qed
  show ?thesis
    by (simp add: get_psih_def assms(4) k(2) mask_get_def ns)
qed

theorem poisson_inversion_nonsquare_witness:
  "\<exists>s0 s1. Fluid 4 6 1 default_dt default_pad (\<lambda>a i j. 0) = Inr s0 \<and> init_solver s0 = Inr s1
     \<and> (nx s1, ny s1, nk s1) = (4, 6, 4) \<and> wh s1 = Some (zeros 4 4)
     \<and> psih s1 = Some (zeros 4 4) \<and> get_psih s1 = Inl IndexError"
proof -
  from nonsquare_solver obtain s0 s1 where
    a: "Fluid 4 6 1 default_dt default_pad (\<lambda>a i j. 0) = Inr s0" "init_solver s0 = Inr s1"
    and r: "reachable s1"
    and f: "nx s1 = 4" "ny s1 = 6" "nk s1 = 4" "wh s1 = Some (zeros 4 4)"
      "psih s1 = Some (zeros 4 4)"
    and k: "k2 s1 \<noteq> None"
    by blast
  have "get_psih s1 = Inl IndexError"
    using r _ k f(4) by (rule poisson_inversion_nonsquare) (simp_all add: f)
  with a f show ?thesis by simp
qed

subsection \<open>Sums of roots of unity\<close>

lemma cis_eq_one_iff: "cis t = 1 \<longleftrightarrow> (\<exists>q::int. t = of_int q * 2 * pi)"
proof
  assume "cis t = 1"
  then have "cos t = 1" by (simp add: complex_eq_iff)
  then show "\<exists>q::int. t = of_int q * 2 * pi" by (simp add: cos_one_2pi_int)
next
  assume "\<exists>q::int. t = of_int q * 2 * pi"
  then obtain q :: int where "t = of_int q * 2 * pi" by blast
  then have "t = 2 * pi * of_int q" by simp
  then show "cis t = 1" by (simp only: cis_multiple_2pi Ints_of_int)
qed

lemma unity_root_sum:
  fixes d :: int
  assumes "0 < n"
  shows "(\<Sum>k<n. cis (2 * pi * of_int d * real k / real n))
       = (if int n dvd d then of_nat n else 0)"
proof -
  define z where "z = cis (2 * pi * of_int d / real n)"
  have pw: "cis (2 * pi * of_int d * real k / real n) = z ^ k" for k
    by (simp add: z_def DeMoivre mult_ac)
  show ?thesis
  proof (cases "int n dvd d")
    case True
    then obtain q where q: "d = int n * q" by (rule dvdE)
    have "2 * pi * of_int d / real n = of_int q * 2 * pi"
      using assms by (simp add: q)
    then have "z = 1" unfolding z_def by (subst cis_eq_one_iff) blast
    then show ?thesis using True by (simp add: pw)
  next
    case False
    have "z \<noteq> 1"
    proof
      assume "z = 1"
      then obtain q :: int where "2 * pi * of_int d / real n = of_int q * 2 * pi"
        unfolding z_def cis_eq_one_iff by blast
      then have "real_of_int d = real_of_int (q * int n)"
        using assms by (simp add: field_simps)
      then have "d = q * int n" by (simp only: of_int_eq_iff)
      with False show False by simp
    qed
    moreover have "z ^ n = 1"
    proof -
      have "z ^ n = cis (2 * pi * of_int d)"
        using assms by (simp add: z_def DeMoivre)
      then show ?thesis by (simp only: cis_multiple_2pi Ints_of_int)
    qed
    ultimately have "(\<Sum>k<n. z ^ k) = 0"
      by (simp add: geometric_sum)
    then show ?thesis using False by (simp add: pw)
  qed
qed

lemma unity_root_sum_diff:
  assumes "j < n" "m < n"
  shows "(\<Sum>k<n. cis (2 * pi * real j * real k / real n) * cis (- (2 * pi * real m * real k / real n)))
       = (if j = m then of_nat n else 0)"
proof -
  have n: "0 < n" using assms by simp
  have "cis (2 * pi * real j * real k / real n) * cis (- (2 * pi * real m * real k / real n))
      = cis (2 * pi * of_int (int j - int m) * real k / real n)" for k
    by (simp add: cis_mult algebra_simps diff_divide_distrib)
  then have "(\<Sum>k<n. cis (2 * pi * real j * real k / real n)
        * cis (- (2 * pi * real m * real k / real n)))
      = (\<Sum>k<n. cis (2 * pi * of_int (int j - int m) * real k / real n))"
    by simp
  also have "\<dots> = (if int n dvd int j - int m then of_nat n else 0)"
    using n by (rule unity_root_sum)
  also have "int n dvd int j - int m \<longleftrightarrow> j = m"
  proof
    assume d: "int n dvd int j - int m"
    have "\<bar>int j - int m\<bar> < int n" using assms by simp
    with d have "int j - int m = 0"
      using zdvd_not_zless[of "\<bar>int j - int m\<bar>" "int n"] by (cases "int j - int m = 0") auto
    then show "j = m" by simp
  qed simp
  finally show ?thesis .
qed

subsection \<open>The complex transform and its inverse\<close>

lemma length_fft [simp]: "length (fft a) = length a"
  by (simp add: fft_def)

lemma length_ifft [simp]: "length (ifft a) = length a"
  by (simp add: ifft_def)

lemma length_rfft [simp]: "length (rfft a) = length a div 2 + 1"
  by (simp add: rfft_def)

lemma length_irfft [simp]: "length (irfft a) = 2 * (length a - 1)"
  by (simp add: irfft_def Let_def)

lemma ifft_fft: "ifft (fft a) = a"
proof (rule nth_equalityI)
  show "length (ifft (fft a)) = length a" by simp
next
  fix j assume "j < length (ifft (fft a))"
  then have j: "j < length a" by simp
  let ?n = "length a"
  have expand: "fft a ! k * cis (2 * pi * real j * real k / real ?n)
      = (\<Sum>m<?n. a ! m * (cis (2 * pi * real j * real k / real ?n)
            * cis (- (2 * pi * real m * real k / real ?n))))" if "k < ?n" for k
  proof -
    have "fft a ! k * cis (2 * pi * real j * real k / real ?n)
        = (\<Sum>m<?n. a ! m * cis (- (2 * pi * real m * real k / real ?n)))
          * cis (2 * pi * real j * real k / real ?n)"
      using that by (simp add: fft_def)
    also have "\<dots> = (\<Sum>m<?n. a ! m * cis (- (2 * pi * real m * real k / real ?n))
          * cis (2 * pi * real j * real k / real ?n))"
      by (rule sum_distrib_right)
    also have "\<dots> = (\<Sum>m<?n. a ! m * (cis (2 * pi * real j * real k / real ?n)
            * cis (- (2 * pi * real m * real k / real ?n))))"
      by (intro sum.cong refl) (simp only: ac_simps)
    finally show ?thesis .
  qed
  have "(\<Sum>k<?n. fft a ! k * cis (2 * pi * real j * real k / real ?n))
      = (\<Sum>k<?n. \<Sum>m<?n. a ! m * (cis (2 * pi * real j * real k / real ?n)
            * cis (- (2 * pi * real m * real k / real ?n))))"
    by (intro sum.cong refl) (simp add: expand)
  also have "\<dots> = (\<Sum>m<?n. \<Sum>k<?n. a ! m * (cis (2 * pi * real j * real k / real ?n)
            * cis (- (2 * pi * real m * real k / real ?n))))"
    by (rule sum.swap)
  also have "\<dots> = (\<Sum>m<?n. a ! m * (if j = m then of_nat ?n else 0))"
    by (intro sum.cong refl)
      (simp add: sum_distrib_left[symmetric] unity_root_sum_diff[OF j])
  also have "\<dots> = (\<Sum>m<?n. if j = m then a ! m * of_nat ?n else 0)"
    by (intro sum.cong refl) simp
  also have "\<dots> = a ! j * of_nat ?n"
    using j by (simp add: sum.delta')
  finally have "(\<Sum>k<?n. fft a ! k * cis (2 * pi * real j * real k / real ?n))
      = a ! j * of_nat ?n" .
  moreover have "a \<noteq> []" using j by auto
  ultimately show "ifft (fft a) ! j = a ! j"
    using j by (simp add: ifft_def)
qed

subsection \<open>The real transform and its inverse\<close>

lemma fold_symmetric_sum:
  fixes f :: "nat \<Rightarrow> real"
  assumes "0 < h" "\<And>k. 0 < k \<Longrightarrow> k < h \<Longrightarrow> f (2 * h - k) = f k"
  shows "(\<Sum>k<2 * h. f k) = f 0 + 2 * (\<Sum>k = 1..<h. f k) + f h"
proof -
  have "(\<Sum>k<2 * h. f k) = (\<Sum>k = 0..<2 * h. f k)"
    by (simp add: atLeast0LessThan)
  also have "\<dots> = (\<Sum>k = 0..<Suc h. f k) + (\<Sum>k = Suc h..<2 * h. f k)"
    using assms(1) by (intro sum.atLeastLessThan_concat[symmetric]) simp_all
  also have "(\<Sum>k = 0..<Suc h. f k) = f 0 + (\<Sum>k = 1..<h. f k) + f h"
    using assms(1) by (simp add: sum.atLeast_Suc_lessThan)
  also have "(\<Sum>k = Suc h..<2 * h. f k) = (\<Sum>k = 1..<h. f (2 * h - k))"
    by (rule sum.reindex_bij_witness[of _ "\<lambda>k. 2 * h - k" "\<lambda>k. 2 * h - k"]) auto
  also have "\<dots> = (\<Sum>k = 1..<h. f k)"
    by (intro sum.cong refl) (simp add: assms(2))
  finally show ?thesis by simp
qed

lemma Re_rfft_term:
  "Re (complex_of_real r * cis (- (2 * pi * real m * real k / real n))
        * cis (2 * pi * real j * real k / real n))
   = r * cos (2 * pi * (real j - real m) * real k / real n)"
proof -
  have e: "cis (- (2 * pi * real m * real k / real n)) * cis (2 * pi * real j * real k / real n)
      = cis (2 * pi * (real j - real m) * real k / real n)"
    by (simp add: cis_mult algebra_simps diff_divide_distrib)
  have "Re (complex_of_real r * cis (- (2 * pi * real m * real k / real n))
        * cis (2 * pi * real j * real k / real n))
      = Re (complex_of_real r * (cis (- (2 * pi * real m * real k / real n))
        * cis (2 * pi * real j * real k / real n)))"
    by (simp only: mult.assoc)
  also have "\<dots> = Re (complex_of_real r * cis (2 * pi * (real j - real m) * real k / real n))"
    by (simp only: e)
  also have "\<dots> = r * cos (2 * pi * (real j - real m) * real k / real n)"
    by simp
  finally show ?thesis .
qed

lemma cos_unity_sum:
  assumes "j < n" "m < n"
  shows "(\<Sum>k<n. cos (2 * pi * (real j - real m) * real k / real n))
       = (if j = m then real n else 0)"
proof -
  have "(\<Sum>k<n. cos (2 * pi * (real j - real m) * real k / real n))
      = Re (\<Sum>k<n. cis (2 * pi * real j * real k / real n)
              * cis (- (2 * pi * real m * real k / real n)))"
    by (simp add: cis_mult algebra_simps diff_divide_distrib)
  also have "\<dots> = (if j = m then real n else 0)"
    by (simp add: unity_root_sum_diff[OF assms])
  finally show ?thesis .
qed

lemma rfft_nth:
  assumes "k \<le> length a div 2"
  shows "rfft a ! k
     = (\<Sum>m<length a. complex_of_real (a ! m)
          * cis (- (2 * pi * real m * real k / real (length a))))"
  unfolding rfft_def using assms by (subst nth_map_upt) simp_all

lemma irfft_nth:
  assumes "j < 2 * (length a - 1)"
  shows "irfft a ! j
     = (Re (a ! 0)
        + (\<Sum>k = 1..<(2 * (length a - 1)) div 2.
             2 * Re (a ! k * cis (2 * pi * real j * real k / real (2 * (length a - 1)))))
        + Re (a ! ((2 * (length a - 1)) div 2)) * (- 1) ^ j) / real (2 * (length a - 1))"
  unfolding irfft_def Let_def using assms by (subst nth_map_upt) simp_all

lemma irfft_rfft:
  assumes "even (length a)" "a \<noteq> []"
  shows "irfft (rfft a) = a"
proof (rule nth_equalityI)
  from assms(1) obtain h where h1: "length a = 2 * h"
    by (rule evenE)
  with assms(2) have h2: "0 < h" by (cases h) auto
  note h = h1 h2
  show len: "length (irfft (rfft a)) = length a"
    using h by simp
  fix j assume "j < length (irfft (rfft a))"
  then have j: "j < 2 * h" using h by simp
  let ?n = "2 * h"
  define c where "c k = (\<Sum>m<?n. a ! m * cos (2 * pi * (real j - real m) * real k / real ?n))"
    for k
  have coef: "Re (rfft a ! k * cis (2 * pi * real j * real k / real ?n)) = c k"
    if "k \<le> h" for k
  proof -
    have "rfft a ! k = (\<Sum>m<?n. complex_of_real (a ! m)
          * cis (- (2 * pi * real m * real k / real ?n)))"
      using that rfft_nth[of k a] by (simp add: h1)
    then have "rfft a ! k * cis (2 * pi * real j * real k / real ?n)
        = (\<Sum>m<?n. complex_of_real (a ! m) * cis (- (2 * pi * real m * real k / real ?n))
            * cis (2 * pi * real j * real k / real ?n))"
      by (simp only: sum_distrib_right)
    then show ?thesis
      unfolding c_def by (simp only: Re_sum Re_rfft_term)
  qed
  have c0: "Re (rfft a ! 0) = c 0"
    using coef[of 0] by simp
  have ch: "Re (rfft a ! h) * (- 1) ^ j = c h"
  proof -
    have ang: "2 * pi * real j * real h / real ?n = pi * real j"
      using h(2) by simp
    have cj: "cis (pi * real j) = complex_of_real ((- 1) ^ j)"
      by (simp add: complex_eq_iff)
    have "Re (rfft a ! h * cis (2 * pi * real j * real h / real ?n)) = c h"
      by (rule coef) simp
    then have "Re (rfft a ! h * complex_of_real ((- 1) ^ j)) = c h"
      by (simp only: ang cj)
    then show ?thesis by simp
  qed
  have sym: "c (2 * h - k) = c k" if "0 < k" "k < h" for k
    unfolding c_def
  proof (intro sum.cong refl)
    fix m
    have "2 * pi * (real j - real m) * real (2 * h - k) / real (2 * h)
        = 2 * pi * (real j - real m) - 2 * pi * (real j - real m) * real k / real (2 * h)"
      using that h(2) by (simp add: of_nat_diff field_simps)
    also have "2 * pi * (real j - real m) = 2 * pi * real_of_int (int j - int m)"
      by simp
    finally have "cos (2 * pi * (real j - real m) * real (2 * h - k) / real (2 * h))
        = cos (2 * pi * real_of_int (int j - int m)
             - 2 * pi * (real j - real m) * real k / real (2 * h))"
      by simp
    also have "\<dots> = cos (2 * pi * (real j - real m) * real k / real (2 * h))"
      by (simp only: cos_diff cos_int_2pin sin_int_2pin mult_1 mult_zero_left add_0_right)
    finally show "a ! m * cos (2 * pi * (real j - real m) * real (2 * h - k) / real (2 * h))
        = a ! m * cos (2 * pi * (real j - real m) * real k / real (2 * h))"
      by simp
  qed
  have "irfft (rfft a) ! j
      = (Re (rfft a ! 0)
         + (\<Sum>k = 1..<h. 2 * Re (rfft a ! k * cis (2 * pi * real j * real k / real ?n)))
         + Re (rfft a ! h) * (- 1) ^ j) / real ?n"
    using j irfft_nth[of j "rfft a"] by (simp add: h1)
  also have "(\<Sum>k = 1..<h. 2 * Re (rfft a ! k * cis (2 * pi * real j * real k / real ?n)))
      = 2 * (\<Sum>k = 1..<h. c k)"
  proof -
    have "(\<Sum>k = 1..<h. 2 * Re (rfft a ! k * cis (2 * pi * real j * real k / real ?n)))
        = (\<Sum>k = 1..<h. 2 * c k)"
    proof (intro sum.cong refl)
      fix k assume "k \<in> {1..<h}"
      then have "k \<le> h" by simp
      from coef[OF this]
      show "2 * Re (rfft a ! k * cis (2 * pi * real j * real k / real ?n)) = 2 * c k"
        by (simp only:)
    qed
    then show ?thesis by (simp only: sum_distrib_left)
  qed
  also have "(Re (rfft a ! 0) + 2 * (\<Sum>k = 1..<h. c k) + Re (rfft a ! h) * (- 1) ^ j)
      = (\<Sum>k<?n. c k)"
    using fold_symmetric_sum[OF h(2), of c] sym by (simp add: c0 ch)
  also have "(\<Sum>k<?n. c k)
      = (\<Sum>m<?n. a ! m * (\<Sum>k<?n. cos (2 * pi * (real j - real m) * real k / real ?n)))"
    unfolding c_def by (subst sum.swap) (simp add: sum_distrib_left)
  also have "\<dots> = (\<Sum>m<?n. if j = m then a ! m * real ?n else 0)"
  proof (intro sum.cong refl)
    fix m assume "m \<in> {..<?n}"
    then have m: "m < ?n" by simp
    have "a ! m * (\<Sum>k<?n. cos (2 * pi * (real j - real m) * real k / real ?n))
        = a ! m * (if j = m then real ?n else 0)"
      by (simp only: cos_unity_sum[OF j m])
    then show "a ! m * (\<Sum>k<?n. cos (2 * pi * (real j - real m) * real k / real ?n))
        = (if j = m then a ! m * real ?n else 0)"
      by (simp only: if_distrib[of "\<lambda>v. a ! m * v"] mult_zero_right)
  qed
  also have "\<dots> = a ! j * real ?n"
    using j by (simp add: sum.delta')
  finally show "irfft (rfft a) ! j = a ! j"
    using h(2) by simp
qed

subsection \<open>Rectangular arrays and their columns\<close>

lemma rect_length: "map length a = replicate r c \<Longrightarrow> length a = r"
  by (metis length_map length_replicate)

lemma rect_row: "map length a = replicate r c \<Longrightarrow> i < r \<Longrightarrow> length (a ! i) = c"
  by (metis length_map length_replicate nth_map nth_replicate)

lemma rect_rows: "map length a = replicate r c \<Longrightarrow> b \<in> set a \<Longrightarrow> length b = c"
  by (metis in_set_conv_nth rect_length rect_row)

lemma rectI:
  assumes "length a = r" "\<And>b. b \<in> set a \<Longrightarrow> length b = c"
  shows "map length a = replicate r c"
proof -
  have "map length a = map (\<lambda>_. c) a"
    by (rule map_cong) (simp_all add: assms(2))
  then show ?thesis by (simp add: map_replicate_const assms(1))
qed

lemma shape_rect:
  assumes "map length a = replicate r c" "0 < r"
  shows "shape a = (r, c)"
proof -
  from assms obtain b bs where a: "a = b # bs"
    using rect_length[OF assms(1)] by (cases a) auto
  with rect_row[OF assms(1), of 0] assms(2) rect_length[OF assms(1)] show ?thesis
    by (simp add: shape_def)
qed

lemma columns_rect:
  assumes "map length a = replicate r c" "0 < r"
  shows "columns a = map (\<lambda>j. map (\<lambda>b. b ! j) a) [0..<c]"
    and "map length (columns a) = replicate c r"
proof -
  show 1: "columns a = map (\<lambda>j. map (\<lambda>b. b ! j) a) [0..<c]"
    by (simp add: columns_def shape_rect[OF assms])
  show "map length (columns a) = replicate c r"
    unfolding 1 by (rule rectI) (auto simp: rect_length[OF assms(1)])
qed

lemma columns_columns:
  assumes "map length a = replicate r c" "0 < r" "0 < c"
  shows "columns (columns a) = a"
proof -
  note ca = columns_rect[OF assms(1,2)]
  note cc = columns_rect[OF ca(2) assms(3)]
  show ?thesis
  proof (rule nth_equalityI)
    show "length (columns (columns a)) = length a"
      using rect_length[OF cc(2)] rect_length[OF assms(1)] by simp
  next
    fix i assume "i < length (columns (columns a))"
    then have i: "i < r" using rect_length[OF cc(2)] by simp
    have "columns (columns a) ! i = map (\<lambda>b. b ! i) (columns a)"
      using i by (simp only: cc(1) nth_map_upt add_0 length_upt diff_zero)
    also have "\<dots> = map (\<lambda>j. a ! i ! j) [0..<c]"
      using i rect_length[OF assms(1)] by (simp add: ca(1) o_def)
    also have "\<dots> = a ! i"
      using rect_row[OF assms(1) i] map_nth[of "a ! i"] by simp
    finally show "columns (columns a) ! i = a ! i" .
  qed
qed

lemma along_axis0_rect:
  assumes "map length a = replicate r c" "0 < r" "0 < c" "\<And>b. length (f b) = length b"
  shows "map length (along_axis0 f a) = replicate r c"
proof -
  note ca = columns_rect[OF assms(1,2)]
  have "map length (map f (columns a)) = replicate c r"
    using ca(2) by (simp add: o_def assms(4))
  from columns_rect(2)[OF this assms(3)] show ?thesis
    by (simp add: along_axis0_def)
qed

lemma along_axis0_inverse:
  assumes "map length a = replicate r c" "0 < r" "0 < c" "\<And>b. length (f b) = length b"
    "\<And>b. g (f b) = b"
  shows "along_axis0 g (along_axis0 f a) = a"
proof -
  note ca = columns_rect[OF assms(1,2)]
  have m: "map length (map f (columns a)) = replicate c r"
    using ca(2) by (simp add: o_def assms(4))
  have "along_axis0 g (along_axis0 f a)
      = columns (map g (columns (columns (map f (columns a)))))"
    by (simp add: along_axis0_def)
  also have "columns (columns (map f (columns a))) = map f (columns a)"
    using m assms(3,2) by (rule columns_columns)
  also have "map g (map f (columns a)) = columns a"
    by (simp add: o_def assms(5))
  also have "columns (columns a) = a"
    using assms(1-3) by (rule columns_columns)
  finally show ?thesis .
qed

subsection \<open>The two-dimensional transforms\<close>

lemma rfft2_rect:
  assumes "map length a = replicate r c" "0 < r" "0 < c"
  shows "rfft2 a = Inr (along_axis0 fft (map rfft a))"
    and "map length (along_axis0 fft (map rfft a)) = replicate r (c div 2 + 1)"
proof -
  show "rfft2 a = Inr (along_axis0 fft (map rfft a))"
    using assms by (simp add: rfft2_def shape_rect[OF assms(1,2)])
  have "map length (map rfft a) = replicate r (c div 2 + 1)"
    by (rule rectI) (auto simp: rect_length[OF assms(1)] rect_rows[OF assms(1)])
  then show "map length (along_axis0 fft (map rfft a)) = replicate r (c div 2 + 1)"
    using assms(2) by (rule along_axis0_rect) simp_all
qed

lemma irfft2_rect:
  assumes "map length a = replicate r c" "0 < r" "1 < c"
  shows "irfft2 a = Inr (map irfft (along_axis0 ifft a))"
    and "map length (map irfft (along_axis0 ifft a)) = replicate r (2 * (c - 1))"
proof -
  show "irfft2 a = Inr (map irfft (along_axis0 ifft a))"
    using assms by (simp add: irfft2_def shape_rect[OF assms(1,2)])
  have m: "map length (along_axis0 ifft a) = replicate r c"
    using assms by (intro along_axis0_rect) simp_all
  show "map length (map irfft (along_axis0 ifft a)) = replicate r (2 * (c - 1))"
    by (rule rectI) (auto simp: rect_length[OF m] rect_rows[OF m])
qed

lemma irfft2_rfft2:
  assumes "map length a = replicate r c" "0 < r" "0 < c" "even c"
  shows "irfft2 (along_axis0 fft (map rfft a)) = Inr a"
proof -
  note f = rfft2_rect[OF assms(1-3)]
  have c2: "1 < c div 2 + 1" using assms(3,4) by (auto elim!: evenE)
  have m: "map length (map rfft a) = replicate r (c div 2 + 1)"
    by (rule rectI) (auto simp: rect_length[OF assms(1)] rect_rows[OF assms(1)])
  have "irfft2 (along_axis0 fft (map rfft a))
      = Inr (map irfft (along_axis0 ifft (along_axis0 fft (map rfft a))))"
    using f(2) assms(2) c2 by (rule irfft2_rect(1))
  also have "along_axis0 ifft (along_axis0 fft (map rfft a)) = map rfft a"
    using m assms(2) by (rule along_axis0_inverse) (simp_all add: ifft_fft)
  also have "map irfft (map rfft a) = a"
  proof -
    have "irfft (rfft b) = b" if "b \<in> set a" for b
      using rect_rows[OF assms(1) that] assms(3,4) by (intro irfft_rfft) auto
    then show ?thesis by (simp add: map_idI)
  qed
  finally show ?thesis .
qed

text \<open>
  The round trip on an even last axis. For every real array \<open>w\<close> of shape \<open>(r, c)\<close> with
  \<open>r \<ge> 1\<close> rows and an even number \<open>c \<ge> 2\<close> of columns held by an object, \<^verbatim>\<open>w_to_wh\<close> and
  then \<^verbatim>\<open>wh_to_w\<close> both return and leave \<open>w\<close> exactly as it was (in exact arithmetic;
  with floating-point numbers the equality holds up to rounding).
\<close>

lemma transform_round_trip:
  assumes "map length (w s) = replicate r c" "0 < r" "0 < c" "even c"
  shows "\<exists>s1 s2. w_to_wh s = Inr s1 \<and> wh_to_w s1 = Inr s2 \<and> w s2 = w s"
proof -
  let ?h = "along_axis0 fft (map rfft (w s))"
  have 1: "w_to_wh s = Inr (s\<lparr>wh := Some ?h\<rparr>)"
    by (simp add: w_to_wh_def rfft2_rect(1)[OF assms(1-3)])
  have 2: "wh_to_w (s\<lparr>wh := Some ?h\<rparr>) = Inr (s\<lparr>wh := Some ?h, w := w s\<rparr>)"
    by (simp add: wh_to_w_def irfft2_rfft2[OF assms])
  from 1 2 show ?thesis by fastforce
qed

lemma transform_round_trip_example:
  "\<exists>s1 s2. w_to_wh example_fluid = Inr s1 \<and> wh_to_w s1 = Inr s2 \<and> w s2 = w example_fluid"
proof (rule transform_round_trip)
  show "map length (w example_fluid) = replicate 4 4"
    by (simp add: example_fluid_def Fluid_def tabulate2_def o_def map_replicate_const)
qed simp_all

lemma round_trip_odd:
  assumes "map length (w s) = replicate r c" "0 < r" "odd c" "1 < c"
  shows "\<exists>s1 s2. w_to_wh s = Inr s1 \<and> wh_to_w s1 = Inr s2
     \<and> map length (w s2) = replicate r (c - 1)"
proof -
  let ?h = "along_axis0 fft (map rfft (w s))"
  have c: "0 < c" "1 < c div 2 + 1" "2 * (c div 2 + 1 - 1) = c - 1"
    using assms(3,4) by (auto elim!: oddE)
  note f = rfft2_rect[OF assms(1,2) c(1)]
  note g = irfft2_rect[OF f(2) assms(2) c(2)]
  have 1: "w_to_wh s = Inr (s\<lparr>wh := Some ?h\<rparr>)"
    by (simp add: w_to_wh_def f(1))
  have 2: "wh_to_w (s\<lparr>wh := Some ?h\<rparr>)
      = Inr (s\<lparr>wh := Some ?h, w := map irfft (along_axis0 ifft ?h)\<rparr>)"
    by (simp add: wh_to_w_def g(1))
  have "map length (w (s\<lparr>wh := Some ?h, w := map irfft (along_axis0 ifft ?h)\<rparr>))
      = replicate r (c - 1)"
    using g(2) c(3) by simp
  with 1 2 show ?thesis by blast
qed

lemma odd_fluid:
  "\<exists>s0. Fluid 4 5 1 default_dt default_pad (\<lambda>a i j. 0) = Inr s0 \<and> nx s0 = 4 \<and> ny s0 = 5
     \<and> w s0 = replicate 4 (replicate 5 0)"
  by (simp add: Fluid_def tabulate2_def map_replicate_const)



subsection \<open>Elementwise operations on rectangular arrays\<close>

lemma broadcast_to_same:
  assumes "map length a = replicate r c"
  shows "broadcast_to (r, c) a = a"
proof -
  have "map (stretch c) a = a"
    by (rule map_idI) (simp add: rect_rows[OF assms])
  then show ?thesis
    by (simp add: broadcast_to_def rect_length[OF assms])
qed

lemma map2_rect:
  assumes "map length a = replicate r c" "map length b = replicate r c"
  shows "map length (map2 (map2 f) a b) = replicate r c"
proof (rule rectI)
  show "length (map2 (map2 f) a b) = r"
    by (simp add: rect_length[OF assms(1)] rect_length[OF assms(2)])
next
  fix e assume "e \<in> set (map2 (map2 f) a b)"
  then obtain p q where "e = map2 f p q" "p \<in> set a" "q \<in> set b"
    by (auto dest: set_zip_leftD set_zip_rightD)
  then show "length e = c"
    by (simp add: rect_rows[OF assms(1)] rect_rows[OF assms(2)])
qed

lemma map2_nth:
  assumes "map length a = replicate r c" "map length b = replicate r c" "i < r" "j < c"
  shows "map2 (map2 f) a b ! i ! j = f (a ! i ! j) (b ! i ! j)"
  using assms rect_length[OF assms(1)] rect_length[OF assms(2)]
    rect_row[OF assms(1,3)] rect_row[OF assms(2,3)]
  by simp

lemma elementwise_same:
  assumes "map length a = replicate r c" "map length b = replicate r c" "0 < r"
  shows "elementwise f a b = Inr (map2 (map2 f) a b)"
  by (simp add: elementwise_def shape_rect[OF assms(1,3)] shape_rect[OF assms(2,3)]
      broadcast_to_same[OF assms(1)] broadcast_to_same[OF assms(2)])

lemma map2_replicate_left:
  "length b = r \<Longrightarrow> map2 g (replicate r e) b = map (g e) b"
  by (induction b arbitrary: r) auto

lemma elementwise_row:
  assumes "length xs = c" "map length b = replicate r c" "0 < r"
  shows "elementwise f [xs] b = Inr (map (\<lambda>row. map2 f xs row) b)"
proof -
  have 1: "broadcast_to (r, c) [xs] = replicate r xs"
    by (simp add: broadcast_to_def assms(1))
  show ?thesis
    by (simp add: elementwise_def shape_rect[OF assms(2,3)] assms(1) 1
        broadcast_to_same[OF assms(2)] map2_replicate_left[OF rect_length[OF assms(2)]])
qed

lemma row_rect:
  assumes "length xs = c" "map length b = replicate r c"
  shows "map length (map (\<lambda>row. map2 f xs row) b) = replicate r c"
  by (rule rectI) (auto simp: rect_length[OF assms(2)] rect_rows[OF assms(2)] assms(1))

lemma elementwise_col:
  assumes "length ys = r" "map length b = replicate r c" "0 < r"
  shows "elementwise f (map (\<lambda>t. [g t]) ys) b = Inr (map2 (\<lambda>t row. map (f (g t)) row) ys b)"
proof -
  have ne: "ys \<noteq> []" using assms(1,3) by auto
  have 1: "broadcast_to (r, c) (map (\<lambda>t. [g t]) ys) = map (\<lambda>t. replicate c (g t)) ys"
    by (simp add: broadcast_to_def assms(1) o_def)
  have 2: "map2 (map2 f) (map (\<lambda>t. replicate c (g t)) ys) b
      = map2 (\<lambda>t row. map (f (g t)) row) ys b"
  proof -
    have "map2 (map2 f) (map (\<lambda>t. replicate c (g t)) ys) b
        = map (\<lambda>(t, row). map2 f (replicate c (g t)) row) (zip ys b)"
      by (simp add: zip_map1 split_def)
    also have "\<dots> = map (\<lambda>(t, row). map (f (g t)) row) (zip ys b)"
    proof (rule map_cong[OF refl])
      fix e assume "e \<in> set (zip ys b)"
      then have "snd e \<in> set b"
        by (metis prod.collapse set_zip_rightD)
      then have "length (snd e) = c"
        by (rule rect_rows[OF assms(2)])
      then show "(case e of (t, row) \<Rightarrow> map2 f (replicate c (g t)) row)
          = (case e of (t, row) \<Rightarrow> map (f (g t)) row)"
        by (cases e) (simp add: map2_replicate_left)
    qed
    finally show ?thesis .
  qed
  show ?thesis
    by (simp only: elementwise_def shape_col[OF ne] shape_rect[OF assms(2,3)] assms(1)
        fst_conv snd_conv bdim_same bdim_one_left One_nat_def prod.case option.case 1 2
        broadcast_to_same[OF assms(2)])
qed

lemma col_rect:
  assumes "length ys = r" "map length b = replicate r c"
  shows "map length (map2 (\<lambda>t row. map (f t) row) ys b) = replicate r c"
proof (rule rectI)
  show "length (map2 (\<lambda>t row. map (f t) row) ys b) = r"
    by (simp add: assms(1) rect_length[OF assms(2)])
next
  fix e assume "e \<in> set (map2 (\<lambda>t row. map (f t) row) ys b)"
  then obtain t q where "e = map (f t) q" "q \<in> set b"
    by (auto dest: set_zip_rightD)
  then show "length e = c"
    by (simp add: rect_rows[OF assms(2)])
qed

lemma map_map_rect:
  "map length a = replicate r c \<Longrightarrow> map length (map (map f) a) = replicate r c"
  by (simp add: o_def)

subsection \<open>Writing into the padded buffers\<close>

lemma set_rows_cols_rect:
  assumes "length m = r'" "map length a = replicate r' c'" "0 < r'"
    "map length b = replicate (length (filter id m)) (min n c')" "0 < length (filter id m)"
  shows "set_rows_cols m n a b = Inr (put_heads m a b)"
proof -
  have la: "length a = r'" by (rule rect_length[OF assms(2)])
  have sa: "shape a = (r', c')" by (rule shape_rect[OF assms(2,3)])
  have sb: "shape b = (length (filter id m), min n c')" by (rule shape_rect[OF assms(4,5)])
  show ?thesis
    by (simp add: set_rows_cols_def assms(1) la sa sb can_broadcast_def
        broadcast_to_same[OF assms(4)])
qed

subsection \<open>The solver on the grid \<^verbatim>\<open>Fluid(4, 6, 1.)\<close>\<close>

lemma nonsquare_solver_arrays:
  "\<exists>s0 s1. Fluid 4 6 1 default_dt default_pad mem = Inr s0 \<and> init_solver s0 = Inr s1
     \<and> reachable s1 \<and> nx s1 = 4 \<and> ny s1 = 6 \<and> nk s1 = 4
     \<and> kx s1 = [0, 1, - 2, - 1] \<and> ky s1 = [0, 1, 2, - 3, - 2, - 1]
     \<and> wh s1 = Some (zeros 4 4) \<and> psih s1 = Some (zeros 4 4) \<and> dwhdt s1 = Some (zeros 4 4)
     \<and> mx s1 = Some 6 \<and> mk s1 = Some 6
     \<and> padder s1 = Some [True, True, False, False, True, True]
     \<and> fk s1 = Some (nonzero [[0, 1, 4, 1], [1, 2, 5, 2], [4, 5, 8, 5], [9, 10, 13, 10],
          [4, 5, 8, 5], [1, 2, 5, 2]])"
proof -
  let ?K = "[[0, 1, 4, 1], [1, 2, 5, 2], [4, 5, 8, 5], [9, 10, 13, 10], [4, 5, 8, 5],
          [1, 2, 5, 2]] :: real list list"
  from nonsquare_fluid obtain s0 where s0:
    "Fluid 4 6 1 default_dt default_pad mem = Inr s0"
    "nx s0 = 4" "ny s0 = 6" "nk s0 = 4" "pad s0 = 3 / 2" "kx s0 = [0, 1, - 2, - 1]"
    "ky s0 = [0, 1, 2, - 3, - 2, - 1]"
    by blast
  have r0: "reachable s0" using s0(1) by (rule construct)
  have p: "make_padder s0 = Inr [True, True, False, False, True, True]"
    by (simp add: make_padder_def s0 np_ones_def py_int_def slice_index_def upt_conv_Cons)
  have k: "k2_array s0 = Inr ?K"
    by (simp add: k2_array_eq s0)
  define s1 where "s1 = (solver_arrays s0)\<lparr>k2 := Some ?K, fk := Some (nonzero ?K),
      padder := Some [True, True, False, False, True, True],
      w0 := map (map complex_of_real) (w s0),
      fltr := Some (filter_of s0 ?K)\<rparr>"
  from init_solver_eq[OF reachable_grid_ok[OF r0] reachable_solver_inv[OF r0] p]
  have run: "init_solver s0 = Inr s1"
    by (simp add: k s1_def)
  have r1: "reachable s1" using r0 run by (rule call_init_solver)
  have f: "nx s1 = 4" "ny s1 = 6" "nk s1 = 4" "kx s1 = [0, 1, - 2, - 1]"
    "ky s1 = [0, 1, 2, - 3, - 2, - 1]" "wh s1 = Some (zeros 4 4)"
    "psih s1 = Some (zeros 4 4)" "dwhdt s1 = Some (zeros 4 4)"
    "mx s1 = Some 6" "mk s1 = Some 6"
    "padder s1 = Some [True, True, False, False, True, True]"
    "fk s1 = Some (nonzero ?K)"
    by (simp_all add: s1_def solver_arrays_def s0 py_int_def)
  show ?thesis
    by (intro exI conjI) (rule s0(1) run r1 f)+
qed

lemma elementwise_rows_mismatch:
  assumes "length a \<noteq> length b" "length a \<noteq> 1" "length b \<noteq> 1"
  shows "elementwise f a b = Inl ValueError"
proof -
  have "bdim (fst (shape a)) (fst (shape b)) = None"
    using assms by (simp add: shape_def bdim_def)
  then show ?thesis by (simp add: elementwise_def)
qed


lemma nonsquare_first_buffer:
  assumes "nk s = 4" "kx s = [0, 1, - 2, - 1]"
    "padder s = Some [True, True, False, False, True, True]"
  shows "\<exists>b. pad_into s (zeros 6 6) (elementwise (*) (ikx_row s) (zeros 4 4)) = Inr b"
proof -
  let ?xs = "map (\<lambda>a. \<i> * complex_of_real a) (take (nk s) (kx s))"
  let ?r = "map (\<lambda>row. map2 (*) ?xs row) (zeros 4 4 :: complex list list)"
  have l: "length ?xs = 4" by (simp add: assms)
  have z: "map length (zeros 4 4 :: complex list list) = replicate 4 4"
    by (rule map_length_zeros)
  have e: "elementwise (*) (ikx_row s) (zeros 4 4) = Inr ?r"
    unfolding ikx_row_def using l z by (rule elementwise_row) simp
  have r: "map length ?r = replicate 4 4"
    using l z by (rule row_rect)
  have "set_rows_cols [True, True, False, False, True, True] 4 (zeros 6 6) ?r
      = Inr (put_heads [True, True, False, False, True, True] (zeros 6 6) ?r)"
  proof (rule set_rows_cols_rect[where r' = 6 and c' = 6])
    show "map length ?r = replicate (length (filter id [True, True, False, False, True, True]))
        (min 4 6)"
      unfolding r by (simp add: eval_nat_numeral)
  qed simp_all
  then show ?thesis
    by (simp add: pad_into_def e assms(1,3))
qed




end
